theory Spec2Isabelle
  imports Complex_Main "HOL-Library.Word"
begin

unbundle bit_operations_syntax

section \<open>Shared data: hashes, bit views, errors\<close>

text \<open>
  A hash is a \<^verbatim>\<open>uint64_t\<close>. A \<^verbatim>\<open>std::bitset<64>\<close> built from it is the same 64 bits,
  and \<^verbatim>\<open>bset[i]\<close> reads bit \<open>i\<close>, with bit 0 the least significant one; the model reads
  it with \<^const>\<open>bit\<close>.
\<close>

type_synonym hash_t = "64 word"
type_synonym bitset64 = "64 word"

text \<open>
  Nothing in the two files raises on purpose. What can go wrong is undefined behaviour or
  an exception of the standard library; each is a value of the model:
  \<^item> \<open>UndefinedShift\<close>: \<^verbatim>\<open>1 << i\<close> on \<^verbatim>\<open>int\<close> with \<open>i \<ge> 32\<close>;
  \<^item> \<open>OutOfRange\<close>: \<^verbatim>\<open>operator[]\<close> of a vector past its end;
  \<^item> \<open>LengthError\<close>: \<^verbatim>\<open>std::vector(count, value)\<close> with a count beyond \<^verbatim>\<open>max_size()\<close>;
  \<^item> \<open>OverflowError\<close>: \<^verbatim>\<open>bitset::to_ulong\<close> on a value that needs more than 64 bits;
  \<^item> \<open>BadCast\<close>: \<^verbatim>\<open>static_cast<size_t>\<close> of a double that is infinite, not a number,
    negative or too large.
\<close>

datatype error = UndefinedShift | OutOfRange | LengthError | OverflowError | BadCast

text \<open>
  Modelled from the spec: the macro \<^verbatim>\<open>BITSET_CAPACITY\<close> of \<^verbatim>\<open>primer/hyperloglog.h\<close>, which is
  not among the sources. The spec fixes the bit view of a hash at 64 bits.
\<close>

definition BITSET_CAPACITY :: nat where
  "BITSET_CAPACITY = 64"

text \<open>
  Modelled from the spec: the macro \<^verbatim>\<open>DENSE_BUCKET_SIZE\<close> of \<^verbatim>\<open>primer/hyperloglog_presto.h\<close>,
  which is not among the sources. The spec gives the dense field 4 bits, and the code masks
  with \<^verbatim>\<open>0x0F\<close>.
\<close>

definition DENSE_BUCKET_SIZE :: nat where
  "DENSE_BUCKET_SIZE = 4"

text \<open>The C++ expression \<^verbatim>\<open>1 << i\<close> on \<^verbatim>\<open>int\<close>: a 32-bit value, undefined from \<open>i = 32\<close> on.\<close>

definition shl1 :: "nat \<Rightarrow> error + 32 word" where
  "shl1 i = (if i < 32 then Inr (push_bit i 1) else Inl UndefinedShift)"

section \<open>The dense estimator (hyperloglog.cpp)\<close>

text \<open>
  Modelled from the spec: the member declarations of \<^verbatim>\<open>primer/hyperloglog.h\<close>, which is not
  among the sources. The fields carry the names that the code uses, without the trailing
  underscore, which Isabelle keeps for its own use. \<^verbatim>\<open>n_bits_\<close> holds the \<^verbatim>\<open>int16_t\<close>
  argument of the constructor, which clamps it at 0, and nothing writes it afterwards; the
  state keeps its value as a natural number. \<^verbatim>\<open>buckets_\<close> is a vector of \<^verbatim>\<open>uint64_t\<close>,
  \<^verbatim>\<open>cardinality_\<close> an unsigned 64-bit integer. The mutex is not modelled: calls are taken
  one at a time.
\<close>

record HyperLogLog =
  n_bits :: nat
  buckets :: "64 word list"
  cardinality :: "64 word"

text \<open>
  \<^verbatim>\<open>std::vector<T>(count, value)\<close> where \<^verbatim>\<open>count\<close> is an \<^verbatim>\<open>int\<close>: a negative count
  becomes a \<^verbatim>\<open>size_t\<close> above \<^verbatim>\<open>max_size()\<close> and the vector throws. Memory is not bounded
  in the model.
\<close>

definition vector_of :: "32 word \<Rightarrow> 'a \<Rightarrow> error + 'a list" where
  "vector_of count v = (if 0 \<le>s count then Inr (replicate (unat count) v) else Inl LengthError)"

definition HyperLogLog_ctor :: "16 word \<Rightarrow> error + HyperLogLog" where
  "HyperLogLog_ctor n_bits0 =
     (let clamped = (if n_bits0 <s 0 then 0 else n_bits0) in
      case shl1 (nat (sint clamped)) of
        Inl e \<Rightarrow> Inl e
      | Inr count \<Rightarrow>
          (case vector_of count 0 of
             Inl e \<Rightarrow> Inl e
           | Inr v \<Rightarrow> Inr \<lparr>n_bits = nat (sint clamped), buckets = v, cardinality = 0\<rparr>))"

definition ComputeBinary :: "hash_t \<Rightarrow> bitset64" where
  "ComputeBinary hash = hash"

text \<open>
  The loop of \<^verbatim>\<open>PositionOfLeftmostOne\<close>, from \<open>i\<close> on; the function starts it at
  \<open>i = n_bits\<close>, so \<open>i - p\<close> is never negative.
\<close>

function PositionOfLeftmostOne_loop :: "nat \<Rightarrow> nat \<Rightarrow> bitset64 \<Rightarrow> 64 word" where
  "PositionOfLeftmostOne_loop p i bset =
     (if i < BITSET_CAPACITY then
        (let index = BITSET_CAPACITY - 1 - i in
         if bit bset index then of_nat (i - p + 1)
         else PositionOfLeftmostOne_loop p (Suc i) bset)
      else 0)"
  by pat_completeness auto
termination
  by (relation "measure (\<lambda>(p, i, bset). BITSET_CAPACITY - i)") auto

declare PositionOfLeftmostOne_loop.simps [simp del]

definition PositionOfLeftmostOne :: "nat \<Rightarrow> bitset64 \<Rightarrow> 64 word" where
  "PositionOfLeftmostOne p bset = PositionOfLeftmostOne_loop p p bset"

text \<open>
  The loop of \<^verbatim>\<open>ComputeBucket\<close>: \<open>n\<close> is an \<^verbatim>\<open>int\<close>, \<open>i\<close> a \<^verbatim>\<open>size_t\<close>. The first
  undefined step is the shift at \<open>i = 32\<close>, before \<open>index\<close> can leave the bitset (at
  \<open>i = 64\<close>). The sum stays below \<open>2 ^ i\<close>, so the 32-bit addition does not overflow
  before that.
\<close>

function ComputeBucket_loop :: "nat \<Rightarrow> nat \<Rightarrow> bitset64 \<Rightarrow> 32 word \<Rightarrow> error + 32 word" where
  "ComputeBucket_loop p i bset n =
     (if i < p then
        (let index = BITSET_CAPACITY - 1 - i in
         case shl1 i of
           Inl e \<Rightarrow> Inl e
         | Inr w \<Rightarrow> ComputeBucket_loop p (Suc i) bset (n + of_bool (bit bset index) * w))
      else Inr n)"
  by pat_completeness auto
termination
  by (relation "measure (\<lambda>(p, i, bset, n). p - i)") auto

declare ComputeBucket_loop.simps [simp del]

text \<open>The result is an \<^verbatim>\<open>int\<close>.\<close>

definition ComputeBucket :: "nat \<Rightarrow> bitset64 \<Rightarrow> error + int" where
  "ComputeBucket p bset =
     (case ComputeBucket_loop p 0 bset 0 of Inl e \<Rightarrow> Inl e | Inr n \<Rightarrow> Inr (sint n))"

text \<open>
  \<^verbatim>\<open>AddElem\<close>. The hash function \<^verbatim>\<open>CalculateHash\<close> is declared in the header and is a
  parameter here. \<^verbatim>\<open>buckets_[n]\<close> converts the \<^verbatim>\<open>int\<close> \<open>n\<close> to \<^verbatim>\<open>size_t\<close>; a negative
  or too large \<open>n\<close> reads past the end of the vector.
\<close>

definition HyperLogLog_AddElem :: "('k \<Rightarrow> hash_t) \<Rightarrow> 'k \<Rightarrow> HyperLogLog \<Rightarrow> error + HyperLogLog" where
  "HyperLogLog_AddElem CalculateHash val s =
     (let hash = CalculateHash val;
          b = ComputeBinary hash in
      case ComputeBucket (n_bits s) b of
        Inl e \<Rightarrow> Inl e
      | Inr n \<Rightarrow>
          (let lmo = PositionOfLeftmostOne (n_bits s) b in
           if 0 \<le> n \<and> nat n < length (buckets s) then
             (if lmo \<le> buckets s ! nat n then Inr s
              else Inr (s\<lparr>buckets := (buckets s)[nat n := lmo]\<rparr>))
           else Inl OutOfRange))"

text \<open>
  The double \<^verbatim>\<open>1.0 / std::pow(2, bucket)\<close>: a power of two, exact down to \<open>2 ^ -1023\<close>;
  from \<open>bucket = 1024\<close> on \<^verbatim>\<open>pow\<close> is \<open>+inf\<close> and the quotient is 0. The sums and the
  quotient of the estimate are taken in the reals: the rounding of double arithmetic is
  not modelled, the sign of a sum of such terms does not depend on it.
\<close>

definition inv_pow2 :: "64 word \<Rightarrow> real" where
  "inv_pow2 bucket = (if unat bucket < 1024 then 1 / 2 ^ unat bucket else 0)"

text \<open>
  \<^verbatim>\<open>static_cast<std::size_t>(x)\<close> on a double: the value is truncated towards zero, and
  the cast is undefined when the truncated value is not a \<^verbatim>\<open>size_t\<close>.
\<close>

definition size_t_of_double :: "real \<Rightarrow> error + 64 word" where
  "size_t_of_double x =
     (if - 1 < x \<and> x < 2 ^ 64 then Inr (word_of_int (if 0 \<le> x then \<lfloor>x\<rfloor> else \<lceil>x\<rceil>))
      else Inl BadCast)"

text \<open>The loop over \<^verbatim>\<open>buckets_\<close> in \<^verbatim>\<open>ComputeCardinality\<close>.\<close>

definition HyperLogLog_sum :: "64 word list \<Rightarrow> real" where
  "HyperLogLog_sum bs = fold (\<lambda>bucket sum_acc. sum_acc + inv_pow2 bucket) bs 0"

text \<open>
  \<^verbatim>\<open>ComputeCardinality\<close>. \<^verbatim>\<open>CONSTANT\<close> is declared in the header and is a parameter
  here. The division is reached with a positive sum only. Where a local variable of the
  source has the name of a constant of HOL or of a field, the model renames it
  (\<open>sum_acc\<close> for \<^verbatim>\<open>sum\<close>, \<open>cardinality'\<close> for \<^verbatim>\<open>cardinality\<close>).
\<close>

definition HyperLogLog_ComputeCardinality :: "real \<Rightarrow> HyperLogLog \<Rightarrow> error + HyperLogLog" where
  "HyperLogLog_ComputeCardinality CONSTANT s =
     (let sum_acc = HyperLogLog_sum (buckets s);
          m = length (buckets s) in
      if sum_acc \<le> 0 then Inr s
      else
        (case size_t_of_double (of_int \<lfloor>CONSTANT * real m * real m / sum_acc\<rfloor>) of
           Inl e \<Rightarrow> Inl e
         | Inr cardinality' \<Rightarrow>
             if cardinality' \<le> cardinality s then Inr s
             else Inr (s\<lparr>cardinality := cardinality'\<rparr>)))"

text \<open>A caller: a sequence of calls on one estimator, stopping at the first failure.\<close>

datatype 'k call = AddElem 'k | ComputeCardinality

definition HyperLogLog_call ::
    "('k \<Rightarrow> hash_t) \<Rightarrow> real \<Rightarrow> 'k call \<Rightarrow> HyperLogLog \<Rightarrow> error + HyperLogLog" where
  "HyperLogLog_call CalculateHash CONSTANT c s =
     (case c of
        AddElem val \<Rightarrow> HyperLogLog_AddElem CalculateHash val s
      | ComputeCardinality \<Rightarrow> HyperLogLog_ComputeCardinality CONSTANT s)"

fun HyperLogLog_calls ::
    "('k \<Rightarrow> hash_t) \<Rightarrow> real \<Rightarrow> 'k call list \<Rightarrow> HyperLogLog \<Rightarrow> error + HyperLogLog" where
  "HyperLogLog_calls CalculateHash CONSTANT [] s = Inr s"
| "HyperLogLog_calls CalculateHash CONSTANT (c # cs) s =
     (case HyperLogLog_call CalculateHash CONSTANT c s of
        Inl e \<Rightarrow> Inl e
      | Inr s' \<Rightarrow> HyperLogLog_calls CalculateHash CONSTANT cs s')"

text \<open>
  What the constructor establishes and every call keeps: at most 30 index bits, one
  register for each index, and no rank above the length of the tail.
\<close>

definition HyperLogLog_inv :: "HyperLogLog \<Rightarrow> bool" where
  "HyperLogLog_inv s \<longleftrightarrow>
     n_bits s \<le> 30 \<and> length (buckets s) = 2 ^ n_bits s \<and>
     (\<forall>b \<in> set (buckets s). unat b \<le> 64 - n_bits s)"

text \<open>The bits that the loop of \<^verbatim>\<open>ComputeBucket\<close> reads from step \<open>i\<close> on, in its order.\<close>

definition top_bits_reversed :: "nat \<Rightarrow> nat \<Rightarrow> bitset64 \<Rightarrow> bool list" where
  "top_bits_reversed i p bset = map (\<lambda>j. bit bset (63 - j)) [i..<p]"

section \<open>The compact estimator (hyperloglog_presto.cpp)\<close>

text \<open>
  The loop of \<^verbatim>\<open>ComputeBucketIndex\<close>: \<open>ret\<close> and \<open>j\<close> are \<^verbatim>\<open>int\<close>; the result is
  converted to \<^verbatim>\<open>uint64_t\<close>, which extends the sign.
\<close>

function ComputeBucketIndex_loop :: "nat \<Rightarrow> nat \<Rightarrow> bitset64 \<Rightarrow> 32 word \<Rightarrow> error + 32 word" where
  "ComputeBucketIndex_loop p j bset ret =
     (if j < p then
        (case shl1 j of
           Inl e \<Rightarrow> Inl e
         | Inr w \<Rightarrow> ComputeBucketIndex_loop p (Suc j) bset (ret + of_bool (bit bset (63 - j)) * w))
      else Inr ret)"
  by pat_completeness auto
termination
  by (relation "measure (\<lambda>(p, j, bset, ret). p - j)") auto

declare ComputeBucketIndex_loop.simps [simp del]

definition ComputeBucketIndex :: "nat \<Rightarrow> bitset64 \<Rightarrow> error + 64 word" where
  "ComputeBucketIndex p bset =
     (case ComputeBucketIndex_loop p 0 bset 0 of Inl e \<Rightarrow> Inl e | Inr ret \<Rightarrow> Inr (scast ret))"

text \<open>
  The loop of \<^verbatim>\<open>PositionOfRightMostOne\<close>: \<open>i\<close> is an \<^verbatim>\<open>int\<close>, compared with
  \<^verbatim>\<open>64 - n_leading_bits_\<close>, which is negative for a precision above 64; the result is
  converted to \<^verbatim>\<open>uint64_t\<close>.
\<close>

function PositionOfRightMostOne_loop :: "nat \<Rightarrow> nat \<Rightarrow> bitset64 \<Rightarrow> 64 word" where
  "PositionOfRightMostOne_loop p i bset =
     (if int i < 64 - int p then
        (if bit bset i then of_nat i
         else PositionOfRightMostOne_loop p (Suc i) bset)
      else word_of_int (64 - int p))"
  by pat_completeness auto
termination
  by (relation "measure (\<lambda>(p, i, bset). 64 - i)") auto

declare PositionOfRightMostOne_loop.simps [simp del]

definition PositionOfRightMostOne :: "nat \<Rightarrow> bitset64 \<Rightarrow> 64 word" where
  "PositionOfRightMostOne p bset = PositionOfRightMostOne_loop p 0 bset"

text \<open>
  Modelled from the spec: the member declarations of \<^verbatim>\<open>primer/hyperloglog_presto.h\<close>,
  which is not among the sources. \<^verbatim>\<open>dense_bucket_\<close> is a vector of 4-bit fields
  (the constructor builds it from \<^verbatim>\<open>bitset<DENSE_BUCKET_SIZE>\<close>). \<^verbatim>\<open>overflow_bucket_\<close> is,
  following the spec, a sparse mapping from register index to overflow bits; the key is
  the index as the code passes it (a \<^verbatim>\<open>uint64_t\<close>), and the width of an overflow field,
  which the spec leaves open, is the type parameter \<open>'w\<close>. The field \<^verbatim>\<open>cardinality_\<close> is
  named \<open>presto_cardinality\<close>, apart from the dense estimator's.
\<close>

record (overloaded) 'w HyperLogLogPresto =
  n_leading_bits :: nat
  dense_bucket :: "4 word list"
  overflow_bucket :: "64 word \<rightharpoonup> 'w word"
  presto_cardinality :: "64 word"

definition HyperLogLogPresto_ctor :: "16 word \<Rightarrow> error + 'w::len HyperLogLogPresto" where
  "HyperLogLogPresto_ctor n_leading_bits0 =
     (let clamped = (if n_leading_bits0 <s 0 then 0 else n_leading_bits0) in
      case shl1 (nat (sint clamped)) of
        Inl e \<Rightarrow> Inl e
      | Inr count \<Rightarrow>
          (case vector_of count 0 of
             Inl e \<Rightarrow> Inl e
           | Inr v \<Rightarrow>
               Inr \<lparr>n_leading_bits = nat (sint clamped), dense_bucket = v,
                    overflow_bucket = Map.empty, presto_cardinality = 0\<rparr>))"

text \<open>\<^verbatim>\<open>bitset::to_ulong\<close> throws when the value does not fit 64 bits; a 4-bit field always fits.\<close>

definition to_ulong :: "'a::len word \<Rightarrow> error + 64 word" where
  "to_ulong b = (if unat b < 2 ^ 64 then Inr (ucast b) else Inl OverflowError)"

definition GetBucketValue :: "'w::len HyperLogLogPresto \<Rightarrow> 64 word \<Rightarrow> error + 64 word" where
  "GetBucketValue s index =
     (if unat index < length (dense_bucket s) then
        (let dense = dense_bucket s ! unat index in
         case overflow_bucket s index of
           None \<Rightarrow> Inr (ucast dense)
         | Some second \<Rightarrow>
             (case to_ulong second of
                Inl e \<Rightarrow> Inl e
              | Inr ov \<Rightarrow> Inr (ucast dense + push_bit DENSE_BUCKET_SIZE ov)))
      else Inl OutOfRange)"

text \<open>Storing a \<^verbatim>\<open>uint64_t\<close> in a bitset keeps its low bits.\<close>

definition SetBucketValue ::
    "'w::len HyperLogLogPresto \<Rightarrow> 64 word \<Rightarrow> 64 word \<Rightarrow> error + 'w HyperLogLogPresto" where
  "SetBucketValue s index v =
     (if unat index < length (dense_bucket s) then
        (let s1 = s\<lparr>dense_bucket := (dense_bucket s)[unat index := ucast (v AND 0x0F)]\<rparr>;
             overflow = drop_bit DENSE_BUCKET_SIZE v in
         if overflow \<le> 0 then Inr s1
         else Inr (s1\<lparr>overflow_bucket := (overflow_bucket s1)(index \<mapsto> ucast overflow)\<rparr>))
      else Inl OutOfRange)"

definition HyperLogLogPresto_AddElem ::
    "('k \<Rightarrow> hash_t) \<Rightarrow> 'k \<Rightarrow> 'w::len HyperLogLogPresto \<Rightarrow> error + 'w HyperLogLogPresto" where
  "HyperLogLogPresto_AddElem CalculateHash val s =
     (let hash = CalculateHash val;
          bit = hash in
      case ComputeBucketIndex (n_leading_bits s) bit of
        Inl e \<Rightarrow> Inl e
      | Inr bucket_index \<Rightarrow>
          (let rmo = PositionOfRightMostOne (n_leading_bits s) bit in
           case GetBucketValue s bucket_index of
             Inl e \<Rightarrow> Inl e
           | Inr current \<Rightarrow>
               if rmo > current then SetBucketValue s bucket_index rmo else Inr s))"

text \<open>The loop of \<^verbatim>\<open>CalBucketSum\<close>, from register \<open>i\<close> on.\<close>

function CalBucketSum_loop :: "'w::len HyperLogLogPresto \<Rightarrow> nat \<Rightarrow> real \<Rightarrow> error + real" where
  "CalBucketSum_loop s i sum_acc =
     (if i < length (dense_bucket s) then
        (case GetBucketValue s (of_nat i) of
           Inl e \<Rightarrow> Inl e
         | Inr v \<Rightarrow> CalBucketSum_loop s (Suc i) (sum_acc + inv_pow2 v))
      else Inr sum_acc)"
  by pat_completeness auto
termination
  by (relation "measure (\<lambda>(s, i, sum_acc). length (dense_bucket s) - i)") auto

declare CalBucketSum_loop.simps [simp del]

definition CalBucketSum :: "'w::len HyperLogLogPresto \<Rightarrow> error + real" where
  "CalBucketSum s = CalBucketSum_loop s 0 0"

text \<open>
  \<^verbatim>\<open>CalCardinality\<close> divides without a test: a double divided by 0 is infinite or not a
  number, \<^verbatim>\<open>floor\<close> keeps it, and the cast of that is undefined.
\<close>

definition CalCardinality :: "real \<Rightarrow> 'w::len HyperLogLogPresto \<Rightarrow> real \<Rightarrow> error + 64 word" where
  "CalCardinality CONSTANT s sum_acc =
     (let m = length (dense_bucket s) in
      if sum_acc = 0 then Inl BadCast
      else size_t_of_double (of_int \<lfloor>CONSTANT * real m * real m / sum_acc\<rfloor>))"

definition HyperLogLogPresto_ComputeCardinality ::
    "real \<Rightarrow> 'w::len HyperLogLogPresto \<Rightarrow> error + 'w HyperLogLogPresto" where
  "HyperLogLogPresto_ComputeCardinality CONSTANT s =
     (case CalBucketSum s of
        Inl e \<Rightarrow> Inl e
      | Inr sum_acc \<Rightarrow>
          (case CalCardinality CONSTANT s sum_acc of
             Inl e \<Rightarrow> Inl e
           | Inr cardinality' \<Rightarrow>
               if cardinality' \<le> presto_cardinality s then Inr s
               else Inr (s\<lparr>presto_cardinality := cardinality'\<rparr>)))"

definition HyperLogLogPresto_call ::
    "('k \<Rightarrow> hash_t) \<Rightarrow> real \<Rightarrow> 'k call \<Rightarrow> 'w::len HyperLogLogPresto \<Rightarrow> error + 'w HyperLogLogPresto" where
  "HyperLogLogPresto_call CalculateHash CONSTANT c s =
     (case c of
        AddElem val \<Rightarrow> HyperLogLogPresto_AddElem CalculateHash val s
      | ComputeCardinality \<Rightarrow> HyperLogLogPresto_ComputeCardinality CONSTANT s)"

fun HyperLogLogPresto_calls ::
    "('k \<Rightarrow> hash_t) \<Rightarrow> real \<Rightarrow> 'k call list \<Rightarrow> 'w::len HyperLogLogPresto \<Rightarrow> error + 'w HyperLogLogPresto" where
  "HyperLogLogPresto_calls CalculateHash CONSTANT [] s = Inr s"
| "HyperLogLogPresto_calls CalculateHash CONSTANT (c # cs) s =
     (case HyperLogLogPresto_call CalculateHash CONSTANT c s of
        Inl e \<Rightarrow> Inl e
      | Inr s' \<Rightarrow> HyperLogLogPresto_calls CalculateHash CONSTANT cs s')"

text \<open>
  What the constructor establishes and every call keeps: at most 30 index bits, one dense
  field for each index, small overflow fields, and no combined rank above the length of
  the tail.
\<close>

definition HyperLogLogPresto_inv :: "'w::len HyperLogLogPresto \<Rightarrow> bool" where
  "HyperLogLogPresto_inv s \<longleftrightarrow>
     n_leading_bits s \<le> 30 \<and> length (dense_bucket s) = 2 ^ n_leading_bits s \<and>
     (\<forall>k second. overflow_bucket s k = Some second \<longrightarrow> unat second \<le> 4) \<and>
     (\<forall>index. unat index < length (dense_bucket s) \<longrightarrow>
        (\<exists>v. GetBucketValue s index = Inr v \<and> unat v \<le> 64 - n_leading_bits s))"

section \<open>Bit utilities\<close>

subsection \<open>Auxiliary facts\<close>

lemma unat_of_nat_small: "n \<le> 64 \<Longrightarrow> unat (of_nat n :: 64 word) = n"
  by (simp add: unat_of_nat)

lemma bit_C0: "bit (0xC000000000000000 :: 64 word) n \<Longrightarrow> 62 \<le> n"
proof -
  assume a: "bit (0xC000000000000000 :: 64 word) n"
  have e: "(0xC000000000000000 :: 64 word) = push_bit 62 3" by simp
  from a show ?thesis unfolding e by (simp only: bit_push_bit_iff)
qed

lemma bit_04: "bit (0x0400000000000000 :: 64 word) n \<longleftrightarrow> n = 58"
proof -
  have e: "(0x0400000000000000 :: 64 word) = push_bit 58 1" by simp
  have "bit (push_bit 58 (1 :: 64 word)) n \<longleftrightarrow> n = 58"
    by (simp only: bit_push_bit_iff bit_1_iff) auto
  then show ?thesis by (simp only: e)
qed

subsection \<open>Rank of the dense estimator\<close>

lemma PositionOfLeftmostOne_loop_unfold:
  "PositionOfLeftmostOne_loop p i bset =
     (if i < 64 then
        (if bit bset (63 - i) then of_nat (i - p + 1)
         else PositionOfLeftmostOne_loop p (Suc i) bset)
      else 0)"
  by (subst PositionOfLeftmostOne_loop.simps) (simp add: BITSET_CAPACITY_def)

lemma PositionOfLeftmostOne_loop_zero:
  "(\<And>j. i \<le> j \<Longrightarrow> j < 64 \<Longrightarrow> \<not> bit bset (63 - j)) \<Longrightarrow> PositionOfLeftmostOne_loop p i bset = 0"
proof (induction "64 - i" arbitrary: i)
  case 0
  then have "\<not> i < 64" by simp
  then show ?case by (subst PositionOfLeftmostOne_loop_unfold) simp
next
  case (Suc n)
  from Suc.hyps(2) have lt: "i < 64" and n: "n = 64 - Suc i" by simp_all
  from lt have nb: "\<not> bit bset (63 - i)" by (rule Suc.prems [OF order_refl])
  have "PositionOfLeftmostOne_loop p (Suc i) bset = 0"
    by (rule Suc.hyps(1) [OF n]) (rule Suc.prems, simp_all)
  with lt nb show ?case by (subst PositionOfLeftmostOne_loop_unfold) simp
qed

lemma PositionOfLeftmostOne_loop_first:
  "i \<le> k \<Longrightarrow> k < 64 \<Longrightarrow> bit bset (63 - k) \<Longrightarrow> (\<And>j. i \<le> j \<Longrightarrow> j < k \<Longrightarrow> \<not> bit bset (63 - j))
   \<Longrightarrow> PositionOfLeftmostOne_loop p i bset = of_nat (k - p + 1)"
proof (induction "k - i" arbitrary: i)
  case 0
  then have "i = k" by simp
  with "0.prems" show ?case by (subst PositionOfLeftmostOne_loop_unfold) simp
next
  case (Suc n)
  from Suc.hyps(2) have lt: "i < k" and n: "n = k - Suc i" by simp_all
  from lt Suc.prems(2) have i64: "i < 64" by simp
  from lt have nb: "\<not> bit bset (63 - i)" by (rule Suc.prems(4) [OF order_refl])
  have "PositionOfLeftmostOne_loop p (Suc i) bset = of_nat (k - p + 1)"
  proof (rule Suc.hyps(1) [OF n _ Suc.prems(2,3)])
    show "Suc i \<le> k" using lt by simp
  next
    fix j assume "Suc i \<le> j" "j < k"
    then show "\<not> bit bset (63 - j)" by (intro Suc.prems(4)) simp_all
  qed
  with i64 nb show ?case by (subst PositionOfLeftmostOne_loop_unfold) simp
qed

text \<open>
  Claim C7. \<^verbatim>\<open>PositionOfLeftmostOne\<close> scans the tail from the bit right after the \<open>p\<close>
  index bits (bit \<open>63 - p\<close>) down to bit 0. Offset \<open>k\<close> of the tail is bit \<open>63 - p - k\<close>.
  If no bit of the tail is set the result is 0; if offset \<open>k\<close> holds the first set bit,
  the result is the 1-based position \<open>k + 1\<close>. A precision of 64 or more has an empty
  tail and the result 0.
\<close>

theorem PositionOfLeftmostOne_spec:
  "((\<forall>k<64 - p. \<not> bit bset (63 - p - k)) \<longrightarrow> PositionOfLeftmostOne p bset = 0) \<and>
   (\<forall>k<64 - p. bit bset (63 - p - k) \<and> (\<forall>j<k. \<not> bit bset (63 - p - j))
        \<longrightarrow> unat (PositionOfLeftmostOne p bset) = k + 1)"
proof (intro conjI impI allI)
  assume z: "\<forall>k<64 - p. \<not> bit bset (63 - p - k)"
  have "PositionOfLeftmostOne_loop p p bset = 0"
  proof (rule PositionOfLeftmostOne_loop_zero)
    fix j :: nat assume j: "p \<le> j" "j < 64"
    then have "j - p < 64 - p" by simp
    with z have "\<not> bit bset (63 - p - (j - p))" by blast
    moreover from j have "63 - p - (j - p) = 63 - j" by simp
    ultimately show "\<not> bit bset (63 - j)" by simp
  qed
  then show "PositionOfLeftmostOne p bset = 0"
    by (simp add: PositionOfLeftmostOne_def)
next
  fix k
  assume k: "k < 64 - p" and h: "bit bset (63 - p - k) \<and> (\<forall>j<k. \<not> bit bset (63 - p - j))"
  have e: "63 - (p + k) = 63 - p - k" by simp
  have "PositionOfLeftmostOne_loop p p bset = of_nat (p + k - p + 1)"
  proof (rule PositionOfLeftmostOne_loop_first)
    show "p \<le> p + k" by simp
    show "p + k < 64" using k by simp
    show "bit bset (63 - (p + k))" using h by (simp only: e)
    fix j :: nat assume j: "p \<le> j" "j < p + k"
    then have "j - p < k" by simp
    with h have "\<not> bit bset (63 - p - (j - p))" by blast
    moreover from j have "63 - p - (j - p) = 63 - j" by simp
    ultimately show "\<not> bit bset (63 - j)" by simp
  qed
  then have "PositionOfLeftmostOne p bset = of_nat (k + 1)"
    by (simp add: PositionOfLeftmostOne_def)
  moreover have "unat (of_nat (k + 1) :: 64 word) = k + 1"
    using k by (intro unat_of_nat_small) simp
  ultimately show "unat (PositionOfLeftmostOne p bset) = k + 1" by simp
qed

theorem PositionOfLeftmostOne_spec_witness:
  "PositionOfLeftmostOne 2 0xC000000000000000 = 0 \<and>
   unat (PositionOfLeftmostOne 2 0x0400000000000000) = 4"
proof
  have "\<forall>k<64 - 2. \<not> bit (0xC000000000000000 :: 64 word) (63 - 2 - k)"
    using bit_C0 by fastforce
  then show "PositionOfLeftmostOne 2 0xC000000000000000 = 0"
    using PositionOfLeftmostOne_spec [of 2 "0xC000000000000000", THEN conjunct1] by blast
  have "(3::nat) < 64 - 2" by simp
  moreover have "bit (0x0400000000000000 :: 64 word) (63 - 2 - 3) \<and>
      (\<forall>j<3. \<not> bit (0x0400000000000000 :: 64 word) (63 - 2 - j))"
    unfolding bit_04 by auto
  ultimately have "unat (PositionOfLeftmostOne 2 0x0400000000000000) = 3 + 1"
    using PositionOfLeftmostOne_spec [of 2 "0x0400000000000000", THEN conjunct2] by blast
  then show "unat (PositionOfLeftmostOne 2 0x0400000000000000) = 4" by simp
qed

subsection \<open>Rank of the compact estimator\<close>

lemma PositionOfRightMostOne_loop_unfold:
  "PositionOfRightMostOne_loop p i bset =
     (if int i < 64 - int p then
        (if bit bset i then of_nat i
         else PositionOfRightMostOne_loop p (Suc i) bset)
      else word_of_int (64 - int p))"
  by (subst PositionOfRightMostOne_loop.simps) simp

lemma PositionOfRightMostOne_loop_zero:
  "p \<le> 64 \<Longrightarrow> (\<And>j. i \<le> j \<Longrightarrow> j < 64 - p \<Longrightarrow> \<not> bit bset j)
   \<Longrightarrow> PositionOfRightMostOne_loop p i bset = of_nat (64 - p)"
proof (induction "64 - p - i" arbitrary: i)
  case 0
  then have "\<not> int i < 64 - int p" by simp
  moreover have "word_of_int (64 - int p) = (of_nat (64 - p) :: 64 word)"
    using "0.prems"(1) by simp
  ultimately show ?case by (subst PositionOfRightMostOne_loop_unfold) simp
next
  case (Suc n)
  from Suc.hyps(2) have lt: "i < 64 - p" and n: "n = 64 - p - Suc i" by simp_all
  from lt have c: "int i < 64 - int p" by simp
  from lt have nb: "\<not> bit bset i" by (rule Suc.prems(2) [OF order_refl])
  have "PositionOfRightMostOne_loop p (Suc i) bset = of_nat (64 - p)"
    by (rule Suc.hyps(1) [OF n Suc.prems(1)]) (rule Suc.prems(2), simp_all)
  with c nb show ?case by (subst PositionOfRightMostOne_loop_unfold) simp
qed

lemma PositionOfRightMostOne_loop_first:
  "i \<le> k \<Longrightarrow> k < 64 - p \<Longrightarrow> bit bset k \<Longrightarrow> (\<And>j. i \<le> j \<Longrightarrow> j < k \<Longrightarrow> \<not> bit bset j)
   \<Longrightarrow> PositionOfRightMostOne_loop p i bset = of_nat k"
proof (induction "k - i" arbitrary: i)
  case 0
  then have "i = k" by simp
  moreover from "0.prems"(2) have "int k < 64 - int p" by simp
  ultimately show ?case using "0.prems"(3)
    by (subst PositionOfRightMostOne_loop_unfold) simp
next
  case (Suc n)
  from Suc.hyps(2) have lt: "i < k" and n: "n = k - Suc i" by simp_all
  from lt Suc.prems(2) have c: "int i < 64 - int p" by simp
  from lt have nb: "\<not> bit bset i" by (rule Suc.prems(4) [OF order_refl])
  have "PositionOfRightMostOne_loop p (Suc i) bset = of_nat k"
  proof (rule Suc.hyps(1) [OF n _ Suc.prems(2,3)])
    show "Suc i \<le> k" using lt by simp
  next
    fix j assume "Suc i \<le> j" "j < k"
    then show "\<not> bit bset j" by (intro Suc.prems(4)) simp_all
  qed
  with c nb show ?case by (subst PositionOfRightMostOne_loop_unfold) simp
qed

text \<open>
  Claim C6. For a precision \<open>p \<le> 64\<close>, \<^verbatim>\<open>PositionOfRightMostOne\<close> scans bits
  \<open>0, 1, \<dots>, 63 - p\<close>. If none is set the result is the length \<open>64 - p\<close> of the tail;
  otherwise it is the 0-based position of the lowest set bit.
\<close>

theorem PositionOfRightMostOne_spec:
  "p \<le> 64 \<Longrightarrow>
   ((\<forall>j<64 - p. \<not> bit bset j) \<longrightarrow> unat (PositionOfRightMostOne p bset) = 64 - p) \<and>
   (\<forall>k<64 - p. bit bset k \<and> (\<forall>j<k. \<not> bit bset j)
        \<longrightarrow> unat (PositionOfRightMostOne p bset) = k)"
proof (intro conjI impI allI)
  assume p: "p \<le> 64" and z: "\<forall>j<64 - p. \<not> bit bset j"
  have "PositionOfRightMostOne_loop p 0 bset = of_nat (64 - p)"
    using p z by (intro PositionOfRightMostOne_loop_zero) simp_all
  moreover have "unat (of_nat (64 - p) :: 64 word) = 64 - p"
    by (intro unat_of_nat_small) simp
  ultimately show "unat (PositionOfRightMostOne p bset) = 64 - p"
    by (simp add: PositionOfRightMostOne_def)
next
  fix k
  assume k: "k < 64 - p" and h: "bit bset k \<and> (\<forall>j<k. \<not> bit bset j)"
  have "PositionOfRightMostOne_loop p 0 bset = of_nat k"
    using k h by (intro PositionOfRightMostOne_loop_first) simp_all
  moreover have "unat (of_nat k :: 64 word) = k"
    using k by (intro unat_of_nat_small) simp
  ultimately show "unat (PositionOfRightMostOne p bset) = k"
    by (simp add: PositionOfRightMostOne_def)
qed

theorem PositionOfRightMostOne_spec_witness:
  "unat (PositionOfRightMostOne 2 0xC000000000000000) = 62 \<and>
   unat (PositionOfRightMostOne 2 0x0400000000000000) = 58"
proof
  have p: "(2::nat) \<le> 64" by simp
  have "\<forall>j<64 - 2. \<not> bit (0xC000000000000000 :: 64 word) j"
    using bit_C0 by fastforce
  then have "unat (PositionOfRightMostOne 2 0xC000000000000000) = 64 - 2"
    using PositionOfRightMostOne_spec [OF p, of "0xC000000000000000", THEN conjunct1] by blast
  then show "unat (PositionOfRightMostOne 2 0xC000000000000000) = 62" by simp
  have "(58::nat) < 64 - 2" by simp
  moreover have "bit (0x0400000000000000 :: 64 word) 58 \<and>
      (\<forall>j<58. \<not> bit (0x0400000000000000 :: 64 word) j)"
    unfolding bit_04 by auto
  ultimately show "unat (PositionOfRightMostOne 2 0x0400000000000000) = 58"
    using PositionOfRightMostOne_spec [OF p, of "0x0400000000000000", THEN conjunct2] by blast
qed

subsection \<open>Register index\<close>

lemma ComputeBucket_loop_unfold:
  "ComputeBucket_loop p i bset n =
     (if i < p then
        (if i < 32 then ComputeBucket_loop p (Suc i) bset (n + of_bool (bit bset (63 - i)) * push_bit i 1)
         else Inl UndefinedShift)
      else Inr n)"
  by (subst ComputeBucket_loop.simps) (simp add: BITSET_CAPACITY_def shl1_def)

lemma ComputeBucketIndex_loop_unfold:
  "ComputeBucketIndex_loop p i bset n =
     (if i < p then
        (if i < 32 then ComputeBucketIndex_loop p (Suc i) bset (n + of_bool (bit bset (63 - i)) * push_bit i 1)
         else Inl UndefinedShift)
      else Inr n)"
  by (subst ComputeBucketIndex_loop.simps) (simp add: shl1_def)

lemma top_bits_reversed_step:
  "i < p \<Longrightarrow> top_bits_reversed i p bset = bit bset (63 - i) # top_bits_reversed (Suc i) p bset"
  by (simp add: top_bits_reversed_def upt_conv_Cons)

lemma horner_step:
  "(n :: 32 word) + of_bool b * push_bit i 1 + push_bit (Suc i) h = n + push_bit i (of_bool b + 2 * h)"
  by (simp add: push_bit_eq_mult algebra_simps)

lemma ComputeBucket_loop_closed:
  "p \<le> 32 \<Longrightarrow> i \<le> p \<Longrightarrow>
   ComputeBucket_loop p i bset n = Inr (n + push_bit i (horner_sum of_bool 2 (top_bits_reversed i p bset)))"
proof (induction "p - i" arbitrary: i n)
  case 0
  then have "i = p" by simp
  then show ?case
    by (subst ComputeBucket_loop_unfold) (simp add: top_bits_reversed_def)
next
  case (Suc k)
  from Suc.hyps(2) have lt: "i < p" and k: "k = p - Suc i" by simp_all
  from lt Suc.prems(1) have i32: "i < 32" by simp
  have "ComputeBucket_loop p (Suc i) bset (n + of_bool (bit bset (63 - i)) * push_bit i 1) =
      Inr (n + of_bool (bit bset (63 - i)) * push_bit i 1 +
           push_bit (Suc i) (horner_sum of_bool 2 (top_bits_reversed (Suc i) p bset)))"
    using lt by (intro Suc.hyps(1) [OF k Suc.prems(1)]) simp
  then show ?case
    using lt i32
    by (subst ComputeBucket_loop_unfold)
       (simp only: if_True horner_step top_bits_reversed_step [OF lt] horner_sum_simps)
qed

lemma ComputeBucketIndex_loop_closed:
  "p \<le> 32 \<Longrightarrow> i \<le> p \<Longrightarrow>
   ComputeBucketIndex_loop p i bset n = Inr (n + push_bit i (horner_sum of_bool 2 (top_bits_reversed i p bset)))"
proof (induction "p - i" arbitrary: i n)
  case 0
  then have "i = p" by simp
  then show ?case
    by (subst ComputeBucketIndex_loop_unfold) (simp add: top_bits_reversed_def)
next
  case (Suc k)
  from Suc.hyps(2) have lt: "i < p" and k: "k = p - Suc i" by simp_all
  from lt Suc.prems(1) have i32: "i < 32" by simp
  have "ComputeBucketIndex_loop p (Suc i) bset (n + of_bool (bit bset (63 - i)) * push_bit i 1) =
      Inr (n + of_bool (bit bset (63 - i)) * push_bit i 1 +
           push_bit (Suc i) (horner_sum of_bool 2 (top_bits_reversed (Suc i) p bset)))"
    using lt by (intro Suc.hyps(1) [OF k Suc.prems(1)]) simp
  then show ?case
    using lt i32
    by (subst ComputeBucketIndex_loop_unfold)
       (simp only: if_True horner_step top_bits_reversed_step [OF lt] horner_sum_simps)
qed

lemma sint_horner:
  assumes "length bs \<le> 31"
  shows "sint (horner_sum of_bool 2 bs :: 32 word) = horner_sum of_bool 2 bs"
proof (rule bit_eqI)
  fix j
  show "bit (sint (horner_sum of_bool 2 bs :: 32 word)) j \<longleftrightarrow> bit (horner_sum of_bool 2 bs :: int) j"
    using assms by (auto simp add: bit_sint_iff bit_horner_sum_bit_word_iff bit_horner_sum_bit_iff)
qed

lemma ComputeBucket_closed:
  "p \<le> 31 \<Longrightarrow>
   \<exists>n. ComputeBucket p bset = Inr n \<and> ComputeBucketIndex p bset = Inr (word_of_int n) \<and>
       0 \<le> n \<and> n < 2 ^ p \<and> (\<forall>j<p. bit n j \<longleftrightarrow> bit (drop_bit (64 - p) bset) (p - 1 - j))"
proof -
  assume p: "p \<le> 31"
  define bs where "bs = top_bits_reversed 0 p bset"
  define n :: int where "n = horner_sum of_bool 2 bs"
  have len: "length bs = p" by (simp add: bs_def top_bits_reversed_def)
  have s: "sint (horner_sum of_bool 2 bs :: 32 word) = n"
    unfolding n_def using p len by (intro sint_horner) simp
  have "ComputeBucket_loop p 0 bset 0 = Inr (horner_sum of_bool 2 bs)"
    using p by (simp add: ComputeBucket_loop_closed bs_def)
  then have 1: "ComputeBucket p bset = Inr n"
    by (simp add: ComputeBucket_def s)
  have "ComputeBucketIndex_loop p 0 bset 0 = Inr (horner_sum of_bool 2 bs)"
    using p by (simp add: ComputeBucketIndex_loop_closed bs_def)
  then have 2: "ComputeBucketIndex p bset = Inr (word_of_int n)"
    by (simp add: ComputeBucketIndex_def scast_eq s)
  have 3: "0 \<le> n" unfolding n_def by (rule horner_sum_nonnegative)
  have 4: "n < 2 ^ p" unfolding n_def using horner_sum_of_bool_2_less [of bs, where 'a = int] by (simp add: len)
  have 5: "bit n j \<longleftrightarrow> bit (drop_bit (64 - p) bset) (p - 1 - j)" if "j < p" for j
  proof -
    from that p have "64 - p + (p - 1 - j) = 63 - j" by simp
    then show ?thesis
      using that by (simp add: n_def bit_horner_sum_bit_iff len bit_drop_bit_eq bs_def top_bits_reversed_def)
  qed
  from 1 2 3 4 5 show ?thesis by blast
qed

text \<open>
  Claim C1, as stated, at precision 2 and the hash \<open>2 ^ 63\<close>: the top two bits are
  \<open>1, 0\<close>, so \<^verbatim>\<open>hash >> 62\<close> is 2, but both index functions return 1. The first bit read
  (bit 63) gets the weight \<open>2 ^ 0\<close>.
\<close>

theorem ComputeBucket_msb_first_counterexample:
  "ComputeBucket 2 0x8000000000000000 = Inr 1 \<and>
   ComputeBucketIndex 2 0x8000000000000000 = Inr 1 \<and>
   drop_bit (64 - 2) (0x8000000000000000 :: 64 word) = 2"
  by code_simp

text \<open>
  Claim C1, amended. For a precision \<open>p \<le> 31\<close> and every hash, \<^verbatim>\<open>ComputeBucket\<close> and
  \<^verbatim>\<open>ComputeBucketIndex\<close> return the same integer \<open>n\<close> with \<open>0 \<le> n < 2 ^ p\<close>, and
  \<open>n\<close> is \<^verbatim>\<open>hash >> (64 - p)\<close> with its \<open>p\<close> bits in reverse order: bit \<open>j\<close> of \<open>n\<close> is
  bit \<open>p - 1 - j\<close> of \<^verbatim>\<open>hash >> (64 - p)\<close>, that is bit \<open>63 - j\<close> of the hash.
\<close>

theorem ComputeBucket_reversed:
  "p \<le> 31 \<Longrightarrow>
   \<exists>n. ComputeBucket p bset = Inr n \<and> ComputeBucketIndex p bset = Inr (word_of_int n) \<and>
       0 \<le> n \<and> n < 2 ^ p \<and> (\<forall>j<p. bit n j \<longleftrightarrow> bit (drop_bit (64 - p) bset) (p - 1 - j))"
  by (rule ComputeBucket_closed)

theorem ComputeBucket_reversed_witness:
  "\<exists>n. ComputeBucket 2 0x8000000000000000 = Inr n \<and>
       ComputeBucketIndex 2 0x8000000000000000 = Inr (word_of_int n) \<and>
       0 \<le> n \<and> n < 2 ^ 2 \<and>
       (\<forall>j<2. bit n j \<longleftrightarrow> bit (drop_bit (64 - 2) (0x8000000000000000 :: 64 word)) (2 - 1 - j))"
proof -
  have p: "(2::nat) \<le> 31" by simp
  show ?thesis by (rule ComputeBucket_reversed [OF p])
qed

section \<open>Compact registers: dense field and overflow field\<close>

lemma fifteen_mask: "(0x0F :: 64 word) = mask 4"
  by (simp add: mask_eq_exp_minus_1)

lemma and_15_take_bit: "(v :: 64 word) AND 0x0F = take_bit 4 v"
  by (simp only: fifteen_mask take_bit_eq_mask)

lemma bit_below_bound:
  fixes v :: "'a::len word"
  assumes "unat v < 2 ^ k" and "bit v m"
  shows "m < k"
proof -
  from assms(1) have "take_bit k (unat v) = unat v" by (rule take_bit_nat_eq_self)
  then have "bit (unat v) m \<longleftrightarrow> bit (take_bit k (unat v)) m" by simp
  moreover from assms(2) have "bit (unat v) m" by (simp add: bit_unsigned_iff bit_imp_possible_bit)
  ultimately show ?thesis by (simp add: bit_take_bit_iff)
qed

lemma dense_reads_back: "ucast (ucast (v AND 0x0F :: 64 word) :: 4 word) = (v AND 0x0F :: 64 word)"
  unfolding and_15_take_bit
  by (rule bit_eqI) (auto simp add: bit_ucast_iff bit_take_bit_iff)

lemma overflow_reads_back:
  fixes v :: "64 word"
  assumes "unat v < 2 ^ (4 + LENGTH('w::len))"
  shows "ucast (ucast (drop_bit 4 v) :: 'w word) = drop_bit 4 v"
proof (rule bit_eqI)
  fix n
  have "bit v (4 + n) \<Longrightarrow> n < LENGTH('w)"
    using bit_below_bound [OF assms, of "4 + n"] by simp
  then show "bit (ucast (ucast (drop_bit 4 v) :: 'w word) :: 64 word) n \<longleftrightarrow> bit (drop_bit 4 v) n"
    by (auto simp add: bit_ucast_iff bit_drop_bit_eq dest: bit_imp_le_length)
qed

lemma nibbles_recombine: "(v AND 0x0F) + push_bit 4 (drop_bit 4 v) = (v :: 64 word)"
  unfolding and_15_take_bit using bits_ident [of 4 v] by (simp add: add.commute)

lemma overflow_zero_iff: "drop_bit 4 (v :: 64 word) = 0 \<longleftrightarrow> v < 16"
proof
  assume "drop_bit 4 v = 0"
  then have "take_bit 4 v = v" by (simp add: take_bit_eq_self_iff_drop_bit_eq_0)
  then have "unat v = take_bit 4 (unat v)" by (metis unsigned_take_bit_eq)
  then have "unat v < 2 ^ 4" by (metis take_bit_nat_less_exp)
  then show "v < 16" by (simp add: word_less_nat_alt)
next
  assume "v < 16"
  then have "unat v < 2 ^ 4" by (simp add: word_less_nat_alt)
  then have "drop_bit 4 (unat v) = 0" by (simp add: drop_bit_eq_div)
  then have "unat (drop_bit 4 v) = 0" by (simp add: unat_drop_bit_eq)
  then show "drop_bit 4 v = 0" by (simp add: unat_eq_0)
qed

lemma small_and_15: "(v :: 64 word) < 16 \<Longrightarrow> v AND 0x0F = v"
  unfolding and_15_take_bit by (simp add: take_bit_eq_self_iff_drop_bit_eq_0 overflow_zero_iff)

lemma SetBucketValue_roundtrip:
  fixes s :: "'w::len HyperLogLogPresto"
  assumes i: "unat index < length (dense_bucket s)"
    and v: "unat v < 2 ^ (4 + LENGTH('w))"
    and c: "16 \<le> v \<or> overflow_bucket s index = None \<or> overflow_bucket s index = Some 0"
  shows "\<exists>s'. SetBucketValue s index v = Inr s' \<and> GetBucketValue s' index = Inr v"
proof (cases "drop_bit 4 v = 0")
  case True
  then have lt: "v < 16" by (simp add: overflow_zero_iff)
  with c have "overflow_bucket s index = None \<or> overflow_bucket s index = Some 0" by auto
  moreover have "ucast (ucast v :: 4 word) = v"
    using dense_reads_back [of v] by (simp only: small_and_15 [OF lt])
  ultimately show ?thesis
    using i True lt
    by (auto simp add: SetBucketValue_def GetBucketValue_def DENSE_BUCKET_SIZE_def small_and_15
        to_ulong_def)
next
  case False
  have "unat (ucast (drop_bit 4 v) :: 'w word) \<le> unat (drop_bit 4 v)"
    by (simp add: unsigned_ucast_eq)
  also have "\<dots> < 2 ^ 64" using unsigned_less [of "drop_bit 4 v", where 'a = nat] by simp
  finally have fit: "unat (ucast (drop_bit 4 v) :: 'w word) < 2 ^ 64" .
  from i False fit show ?thesis
    by (simp add: SetBucketValue_def GetBucketValue_def DENSE_BUCKET_SIZE_def to_ulong_def
        dense_reads_back overflow_reads_back [OF v] nibbles_recombine)
qed

lemma SetBucketValue_other:
  fixes s :: "'w::len HyperLogLogPresto"
  assumes "SetBucketValue s index v = Inr s'" and "k \<noteq> index"
  shows "GetBucketValue s' k = GetBucketValue s k"
proof -
  from assms(2) have ne: "unat index \<noteq> unat k" by (simp add: word_unat_eq_iff)
  from assms have d: "dense_bucket s' = (dense_bucket s)[unat index := ucast (v AND 0x0F)]"
    and ov: "overflow_bucket s' k = overflow_bucket s k"
    by (auto simp add: SetBucketValue_def Let_def split: if_splits)
  show ?thesis
    by (simp add: GetBucketValue_def d ov nth_list_update_neq [OF ne])
qed

lemma SetBucketValue_fields:
  fixes s :: "'w::len HyperLogLogPresto"
  assumes "SetBucketValue s index v = Inr s'"
  shows "n_leading_bits s' = n_leading_bits s \<and> presto_cardinality s' = presto_cardinality s \<and>
    length (dense_bucket s') = length (dense_bucket s) \<and>
    (\<forall>k second. overflow_bucket s' k = Some second \<longrightarrow>
       overflow_bucket s k = Some second \<or> second = ucast (drop_bit 4 v))"
  using assms
  by (auto simp add: SetBucketValue_def Let_def DENSE_BUCKET_SIZE_def split: if_splits)

lemma unat_word_of_int_small:
  "0 \<le> n \<Longrightarrow> n < 2 ^ 30 \<Longrightarrow> unat (word_of_int n :: 64 word) = nat n"
proof -
  assume a: "0 \<le> n" "n < 2 ^ 30"
  then have "nat n < 2 ^ 64" by (simp add: nat_less_iff)
  moreover from a have "(word_of_int n :: 64 word) = of_nat (nat n)" by simp
  ultimately show ?thesis by (simp add: unat_of_nat)
qed

lemma small_ucast_overflow:
  fixes x :: "64 word"
  assumes "unat x \<le> 64"
  shows "unat (ucast (drop_bit 4 x) :: 'w::len word) \<le> 4"
proof -
  have "unat (ucast (drop_bit 4 x) :: 'w word) \<le> unat (drop_bit 4 x)"
    by (simp add: unsigned_ucast_eq)
  also have "\<dots> = drop_bit 4 (unat x)" by (simp only: unat_drop_bit_eq)
  also have "\<dots> = unat x div 16" by (simp add: drop_bit_eq_div)
  also have "\<dots> \<le> 4" using assms by simp
  finally show ?thesis .
qed

lemma GetBucketValue_lower:
  fixes s :: "'w::len HyperLogLogPresto"
  assumes "GetBucketValue s index = Inr v" and "overflow_bucket s index = Some second"
    and "unat second \<le> 4" and "v < 16"
  shows "second = 0"
proof -
  define d :: "64 word" where "d = ucast (dense_bucket s ! unat index)"
  define x :: "64 word" where "x = ucast second"
  have ux: "unat x = unat second" using assms(3) by (simp add: x_def unsigned_ucast_eq take_bit_nat_eq_self)
  have ud: "unat d < 16" using unsigned_less [of "dense_bucket s ! unat index", where 'a = nat]
    by (simp add: d_def unsigned_ucast_eq take_bit_nat_eq_self)
  from assms(1,2,3) have v: "v = d + push_bit 4 x"
    by (auto simp add: GetBucketValue_def to_ulong_def Let_def DENSE_BUCKET_SIZE_def d_def x_def
        split: if_splits)
  have "unat (push_bit 4 x) = 16 * unat x"
    using assms(3) ux by (simp add: push_bit_eq_mult unat_word_ariths)
  moreover have "unat (d + push_bit 4 x) = unat d + unat (push_bit 4 x)"
    using assms(3) ux ud calculation by (simp add: unat_word_ariths)
  ultimately have "unat v = unat d + 16 * unat second" using v ux by simp
  moreover from assms(4) have "unat v < 16" by (simp add: word_less_nat_alt)
  ultimately have "unat second = 0" by simp
  then show ?thesis by (simp add: unat_eq_0)
qed

lemma combined_unat:
  fixes d :: "4 word" and second :: "'w::len word"
  assumes "unat second \<le> 4"
  shows "unat (ucast d + push_bit 4 (ucast second :: 64 word) :: 64 word) = unat d + 16 * unat second"
proof -
  define x :: "64 word" where "x = ucast second"
  define y :: "64 word" where "y = ucast d"
  have ux: "unat x = unat second"
    using assms by (simp add: x_def unsigned_ucast_eq take_bit_nat_eq_self)
  have uy: "unat y = unat d"
    using unsigned_less [of d, where 'a = nat]
    by (simp add: y_def unsigned_ucast_eq take_bit_nat_eq_self)
  have d16: "unat d < 16" using unsigned_less [of d, where 'a = nat] by simp
  have p: "unat (push_bit 4 x) = 16 * unat x"
    using assms ux by (simp add: push_bit_eq_mult unat_word_ariths)
  have "unat (y + push_bit 4 x) = unat y + unat (push_bit 4 x)"
    using assms ux uy d16 p by (simp add: unat_word_ariths)
  with p ux uy show ?thesis by (simp add: x_def y_def)
qed

lemma SetBucketValue_upper:
  fixes s :: "'w::len HyperLogLogPresto"
  assumes i: "unat index < length (dense_bucket s)" and v: "unat v \<le> 64" and big: "16 \<le> v"
  shows "\<exists>s' v'. SetBucketValue s index v = Inr s' \<and> GetBucketValue s' index = Inr v' \<and>
    unat v' \<le> unat v"
proof -
  define e :: "'w word" where "e = ucast (drop_bit 4 v)"
  define d :: "4 word" where "d = ucast (v AND 0x0F)"
  from big have nz: "drop_bit 4 v \<noteq> 0" by (simp add: overflow_zero_iff not_less)
  have e4: "unat e \<le> 4" unfolding e_def using v by (rule small_ucast_overflow)
  have "unat e \<le> unat (drop_bit 4 v)" by (simp add: e_def unsigned_ucast_eq)
  also have "\<dots> = drop_bit 4 (unat v)" by (simp only: unat_drop_bit_eq)
  also have "\<dots> = unat v div 16" by (simp add: drop_bit_eq_div)
  finally have e_le: "unat e \<le> unat v div 16" .
  have "(ucast d :: 64 word) = v AND 0x0F" unfolding d_def by (rule dense_reads_back)
  then have "unat (ucast d :: 64 word) = unat (take_bit 4 v)" by (simp only: and_15_take_bit)
  also have "\<dots> = take_bit 4 (unat v)" by (simp only: unsigned_take_bit_eq)
  also have "\<dots> = unat v mod 16" by (simp add: take_bit_eq_mod)
  finally have "unat (ucast d :: 64 word) = unat v mod 16" .
  moreover have "unat (ucast d :: 64 word) = unat d"
    using unsigned_less [of d, where 'a = nat]
    by (simp add: unsigned_ucast_eq take_bit_nat_eq_self)
  ultimately have d_eq: "unat d = unat v mod 16" by simp
  define v' :: "64 word" where "v' = ucast d + push_bit 4 (ucast e)"
  have "unat v' = unat d + 16 * unat e" unfolding v'_def using e4 by (rule combined_unat)
  moreover from e_le have "16 * unat e \<le> 16 * (unat v div 16)" by simp
  moreover have "16 * (unat v div 16) + unat v mod 16 = unat v" by simp
  ultimately have le: "unat v' \<le> unat v" using d_eq by linarith
  from e4 have fit: "unat e < 2 ^ 64" by simp
  from i nz fit have "\<exists>s'. SetBucketValue s index v = Inr s' \<and> GetBucketValue s' index = Inr v'"
    by (simp add: SetBucketValue_def GetBucketValue_def DENSE_BUCKET_SIZE_def to_ulong_def
        e_def [symmetric] d_def [symmetric] v'_def)
  with le show ?thesis by blast
qed

text \<open>
  Claim C8, as stated, on the one-register estimator with overflow width 3 and the value
  133: \<^verbatim>\<open>value >> 4\<close> is 8, which is positive, but a 3-bit field keeps only its low three
  bits, so the overflow entry written for register 0 is 0, not 8.
\<close>

theorem SetBucketValue_truncates_counterexample:
  "SetBucketValue \<lparr>n_leading_bits = 0, dense_bucket = [0], overflow_bucket = Map.empty,
                    presto_cardinality = 0\<rparr> 0 133 =
     Inr \<lparr>n_leading_bits = 0, dense_bucket = [5], overflow_bucket = [0 \<mapsto> (0 :: 3 word)],
          presto_cardinality = 0\<rparr> \<and>
   drop_bit 4 (133 :: 64 word) = 8 \<and>
   (ucast (0 :: 3 word) :: 64 word) \<noteq> drop_bit 4 (133 :: 64 word)"
proof -
  have e: "(8 :: 3 word) = 0" by simp
  show ?thesis by (simp add: SetBucketValue_def DENSE_BUCKET_SIZE_def e)
qed

text \<open>
  Claim C8, amended. For an index inside the register array and a value below
  \<open>2 ^ (4 + width)\<close>, where \<open>width\<close> is the width of an overflow field,
  \<^verbatim>\<open>SetBucketValue(index, value)\<close> succeeds; the dense field at \<open>index\<close> becomes
  \<^verbatim>\<open>value & 0xF\<close>; the overflow entry at \<open>index\<close> becomes \<^verbatim>\<open>value >> 4\<close> (it reads back as
  exactly that) exactly when \<^verbatim>\<open>value >> 4 > 0\<close>, and is left as it was, present or absent,
  when \<^verbatim>\<open>value >> 4\<close> is 0. No other dense field, no other overflow entry, and neither the
  precision nor the stored cardinality changes.
\<close>

theorem SetBucketValue_frame:
  fixes s :: "'w::len HyperLogLogPresto"
  assumes "unat index < length (dense_bucket s)" and "unat v < 2 ^ (4 + LENGTH('w))"
  shows "\<exists>s'. SetBucketValue s index v = Inr s' \<and>
     length (dense_bucket s') = length (dense_bucket s) \<and>
     dense_bucket s' ! unat index = ucast (v AND 0x0F) \<and>
     ucast (dense_bucket s' ! unat index) = v AND 0x0F \<and>
     (\<forall>i < length (dense_bucket s). i \<noteq> unat index \<longrightarrow> dense_bucket s' ! i = dense_bucket s ! i) \<and>
     overflow_bucket s' index =
       (if 0 < drop_bit 4 v then Some (ucast (drop_bit 4 v)) else overflow_bucket s index) \<and>
     ucast (ucast (drop_bit 4 v) :: 'w word) = drop_bit 4 v \<and>
     (\<forall>k. k \<noteq> index \<longrightarrow> overflow_bucket s' k = overflow_bucket s k) \<and>
     n_leading_bits s' = n_leading_bits s \<and>
     presto_cardinality s' = presto_cardinality s"
proof (cases "drop_bit 4 v = 0")
  case True
  with assms(1) show ?thesis
    by (simp add: SetBucketValue_def DENSE_BUCKET_SIZE_def dense_reads_back
        overflow_reads_back [OF assms(2)])
next
  case False
  then have "0 < drop_bit 4 v" by (simp add: word_gt_0)
  with assms(1) False show ?thesis
    by (simp add: SetBucketValue_def DENSE_BUCKET_SIZE_def dense_reads_back
        overflow_reads_back [OF assms(2)])
qed

theorem SetBucketValue_frame_witness:
  "\<exists>s'. SetBucketValue \<lparr>n_leading_bits = 1, dense_bucket = [0, 5], overflow_bucket = [0 \<mapsto> (1 :: 3 word)],
                    presto_cardinality = 0\<rparr> 1 35 = Inr s' \<and>
      dense_bucket s' ! 0 = 0 \<and> dense_bucket s' ! 1 = 3 \<and>
      overflow_bucket s' 0 = Some 1 \<and> overflow_bucket s' 1 = Some 2 \<and>
      (ucast (2 :: 3 word) :: 64 word) = drop_bit 4 35"
proof -
  let ?s = "\<lparr>n_leading_bits = 1, dense_bucket = [0, 5], overflow_bucket = [0 \<mapsto> (1 :: 3 word)],
                    presto_cardinality = 0\<rparr>"
  have i: "unat (1 :: 64 word) < length (dense_bucket ?s)" by simp
  have b: "unat (35 :: 64 word) < 2 ^ (4 + LENGTH(3))" by simp
  from SetBucketValue_frame [OF i b] obtain s' where
    s': "SetBucketValue ?s 1 35 = Inr s'"
    and d: "dense_bucket s' ! unat (1 :: 64 word) = ucast (35 AND 0x0F :: 64 word)"
    and f: "\<forall>i < length (dense_bucket ?s). i \<noteq> unat (1 :: 64 word) \<longrightarrow> dense_bucket s' ! i = dense_bucket ?s ! i"
    and ov: "overflow_bucket s' 1 =
       (if 0 < drop_bit 4 (35 :: 64 word) then Some (ucast (drop_bit 4 (35 :: 64 word))) else overflow_bucket ?s 1)"
    and rb: "ucast (ucast (drop_bit 4 (35 :: 64 word)) :: 3 word) = drop_bit 4 (35 :: 64 word)"
    and g: "\<forall>k. k \<noteq> 1 \<longrightarrow> overflow_bucket s' k = overflow_bucket ?s k"
    by blast
  from f have "dense_bucket s' ! 0 = 0" by simp
  moreover from d have "dense_bucket s' ! 1 = 3" by simp
  moreover from g have "overflow_bucket s' 0 = Some 1" by simp
  moreover from ov have "overflow_bucket s' 1 = Some 2" by simp
  moreover from rb have "(ucast (2 :: 3 word) :: 64 word) = drop_bit 4 35" by simp
  ultimately show ?thesis using s' by blast
qed

text \<open>
  Claim C2, as stated, on the one-register estimator with overflow width 3: after
  \<^verbatim>\<open>SetBucketValue(0, 16)\<close> the overflow entry of register 0 is 1; \<^verbatim>\<open>SetBucketValue(0, 3)\<close>
  then leaves that entry alone, and \<^verbatim>\<open>GetBucketValue(0)\<close> returns \<open>3 + 16 = 19\<close>, not 3.
\<close>

theorem Set_then_Get_counterexample:
  "SetBucketValue \<lparr>n_leading_bits = 0, dense_bucket = [0], overflow_bucket = Map.empty,
                    presto_cardinality = 0\<rparr> 0 16 =
     Inr \<lparr>n_leading_bits = 0, dense_bucket = [0], overflow_bucket = [0 \<mapsto> (1 :: 3 word)],
          presto_cardinality = 0\<rparr> \<and>
   SetBucketValue \<lparr>n_leading_bits = 0, dense_bucket = [0], overflow_bucket = [0 \<mapsto> (1 :: 3 word)],
                    presto_cardinality = 0\<rparr> 0 3 =
     Inr \<lparr>n_leading_bits = 0, dense_bucket = [3], overflow_bucket = [0 \<mapsto> (1 :: 3 word)],
          presto_cardinality = 0\<rparr> \<and>
   GetBucketValue \<lparr>n_leading_bits = 0, dense_bucket = [3], overflow_bucket = [0 \<mapsto> (1 :: 3 word)],
                    presto_cardinality = 0\<rparr> 0 = Inr 19"
  by (simp add: SetBucketValue_def GetBucketValue_def DENSE_BUCKET_SIZE_def to_ulong_def)

text \<open>
  Claim C2, amended. For an index inside the register array and a value
  \<open>v < 2 ^ (4 + width)\<close>, if \<open>v \<ge> 16\<close> or the register has no overflow entry before the
  call, then \<^verbatim>\<open>GetBucketValue(index)\<close> after \<^verbatim>\<open>SetBucketValue(index, v)\<close> returns \<open>v\<close>.
\<close>

theorem Set_then_Get:
  fixes s :: "'w::len HyperLogLogPresto"
  assumes i: "unat index < length (dense_bucket s)"
    and v: "unat v < 2 ^ (4 + LENGTH('w))"
    and c: "16 \<le> v \<or> overflow_bucket s index = None"
  shows "\<exists>s'. SetBucketValue s index v = Inr s' \<and> GetBucketValue s' index = Inr v"
  using SetBucketValue_roundtrip [OF i v] c by blast

theorem Set_then_Get_witness:
  "\<exists>s'. SetBucketValue \<lparr>n_leading_bits = 0, dense_bucket = [0], overflow_bucket = [0 \<mapsto> (1 :: 3 word)],
                    presto_cardinality = 0\<rparr> 0 35 = Inr s' \<and> GetBucketValue s' 0 = Inr 35"
proof -
  let ?s = "\<lparr>n_leading_bits = 0, dense_bucket = [0], overflow_bucket = [0 \<mapsto> (1 :: 3 word)],
                    presto_cardinality = 0\<rparr>"
  have i: "unat (0 :: 64 word) < length (dense_bucket ?s)" by simp
  have v: "unat (35 :: 64 word) < 2 ^ (4 + LENGTH(3))" by simp
  have c: "16 \<le> (35 :: 64 word) \<or> overflow_bucket ?s 0 = None" by simp
  show ?thesis by (rule Set_then_Get [OF i v c])
qed

section \<open>Construction\<close>

lemma unat_shl1: "p < 32 \<Longrightarrow> unat (2 ^ p :: 32 word) = 2 ^ p"
proof -
  assume p: "p < 32"
  have "(2 ^ p :: 32 word) = of_nat (2 ^ p)" by simp
  moreover have "(2 :: nat) ^ p < 2 ^ 32" using p by (intro power_strict_increasing) simp_all
  ultimately show ?thesis by (simp only: unat_of_nat) simp
qed

lemma sint_shl1: "p < 31 \<Longrightarrow> sint (2 ^ p :: 32 word) = 2 ^ p"
proof -
  assume p: "p < 31"
  then have u: "unat (2 ^ p :: 32 word) = 2 ^ p" by (intro unat_shl1) simp
  have "uint (2 ^ p :: 32 word) = int (unat (2 ^ p :: 32 word))" by simp
  with u have ui: "uint (2 ^ p :: 32 word) = 2 ^ p" by simp
  have "(2 :: int) ^ p < 2 ^ 31" using p by (intro power_strict_increasing) simp_all
  moreover have "- (2 ^ 31) \<le> (2 :: int) ^ p" by (rule order_trans [of _ 0]) simp_all
  ultimately have "signed_take_bit (31 :: nat) ((2 :: int) ^ p) = 2 ^ p"
    by (intro signed_take_bit_int_eq_self) simp_all
  then show ?thesis by (simp add: sint_uint ui)
qed

lemma vector_of_shl1: "p \<le> 30 \<Longrightarrow> vector_of (2 ^ p :: 32 word) v = Inr (replicate (2 ^ p) v)"
  by (simp add: vector_of_def word_sle_eq sint_shl1 unat_shl1)

lemma clamped_value:
  "nat (sint (if (a :: 16 word) <s 0 then 0 else a)) = nat (sint a)"
  by (simp add: word_sless_alt)

lemma HyperLogLog_ctor_closed:
  "sint a \<le> 30 \<Longrightarrow>
   HyperLogLog_ctor a = Inr \<lparr>n_bits = nat (sint a), buckets = replicate (2 ^ nat (sint a)) 0, cardinality = 0\<rparr>"
proof -
  assume "sint a \<le> 30"
  then have p: "nat (sint a) \<le> 30" by simp
  then have "shl1 (nat (sint a)) = Inr (2 ^ nat (sint a))" by (simp add: shl1_def)
  then show ?thesis
    by (simp add: HyperLogLog_ctor_def clamped_value vector_of_shl1 [OF p])
qed

lemma HyperLogLogPresto_ctor_closed:
  "sint a \<le> 30 \<Longrightarrow>
   HyperLogLogPresto_ctor a =
     Inr \<lparr>n_leading_bits = nat (sint a), dense_bucket = replicate (2 ^ nat (sint a)) 0,
          overflow_bucket = Map.empty, presto_cardinality = 0\<rparr>"
proof -
  assume "sint a \<le> 30"
  then have p: "nat (sint a) \<le> 30" by simp
  then have "shl1 (nat (sint a)) = Inr (2 ^ nat (sint a))" by (simp add: shl1_def)
  then show ?thesis
    by (simp add: HyperLogLogPresto_ctor_def clamped_value vector_of_shl1 [OF p])
qed

lemma HyperLogLog_ctor_fails:
  "30 < sint a \<Longrightarrow> \<exists>e. HyperLogLog_ctor a = Inl e"
proof -
  assume a: "30 < sint a"
  then consider "nat (sint a) = 31" | "32 \<le> nat (sint a)" by linarith
  then show ?thesis
  proof cases
    case 1
    then show ?thesis
      by (simp add: HyperLogLog_ctor_def clamped_value shl1_def vector_of_def word_sle_eq)
  next
    case 2
    then show ?thesis
      by (simp add: HyperLogLog_ctor_def clamped_value shl1_def)
  qed
qed

lemma HyperLogLogPresto_ctor_fails:
  "30 < sint a \<Longrightarrow> \<exists>e. (HyperLogLogPresto_ctor a :: error + 'w::len HyperLogLogPresto) = Inl e"
proof -
  assume a: "30 < sint a"
  then consider "nat (sint a) = 31" | "32 \<le> nat (sint a)" by linarith
  then show ?thesis
  proof cases
    case 1
    then show ?thesis
      by (simp add: HyperLogLogPresto_ctor_def clamped_value shl1_def vector_of_def word_sle_eq)
  next
    case 2
    then show ?thesis
      by (simp add: HyperLogLogPresto_ctor_def clamped_value shl1_def)
  qed
qed

lemma HyperLogLog_ctor_inv: "HyperLogLog_ctor a = Inr s \<Longrightarrow> HyperLogLog_inv s"
proof -
  assume c: "HyperLogLog_ctor a = Inr s"
  have le: "sint a \<le> 30"
  proof (rule ccontr)
    assume "\<not> sint a \<le> 30"
    then have "30 < sint a" by simp
    from HyperLogLog_ctor_fails [OF this] c show False by auto
  qed
  from HyperLogLog_ctor_closed [OF le] c le show ?thesis
    by (auto simp add: HyperLogLog_inv_def)
qed

lemma HyperLogLogPresto_ctor_inv:
  fixes t :: "'w::len HyperLogLogPresto"
  shows "HyperLogLogPresto_ctor a = Inr t \<Longrightarrow> HyperLogLogPresto_inv t"
proof -
  assume c: "HyperLogLogPresto_ctor a = Inr t"
  have le: "sint a \<le> 30"
  proof (rule ccontr)
    assume "\<not> sint a \<le> 30"
    then have "30 < sint a" by simp
    from HyperLogLogPresto_ctor_fails [OF this, where 'w = 'w] c show False by auto
  qed
  from HyperLogLogPresto_ctor_closed [OF le, where 'a = 'w] c le show ?thesis
    by (auto simp add: HyperLogLogPresto_inv_def GetBucketValue_def)
qed

section \<open>AddElem\<close>

subsection \<open>Ranks never exceed the length of the tail\<close>

lemma PositionOfLeftmostOne_loop_bound:
  "p \<le> i \<Longrightarrow> unat (PositionOfLeftmostOne_loop p i bset) \<le> 64 - p"
proof (induction "64 - i" arbitrary: i)
  case 0
  then have "\<not> i < 64" by simp
  then show ?case by (subst PositionOfLeftmostOne_loop_unfold) simp
next
  case (Suc n)
  from Suc.hyps(2) have lt: "i < 64" and n: "n = 64 - Suc i" by simp_all
  have ih: "unat (PositionOfLeftmostOne_loop p (Suc i) bset) \<le> 64 - p"
    using Suc.prems by (intro Suc.hyps(1) [OF n]) simp
  have "unat (of_nat (i - p + 1) :: 64 word) = i - p + 1"
    using lt by (intro unat_of_nat_small) simp
  then have "unat (of_nat (i - p + 1) :: 64 word) \<le> 64 - p"
    using lt Suc.prems by simp
  with ih lt show ?case
    by (subst PositionOfLeftmostOne_loop_unfold) (simp del: of_nat_Suc of_nat_add)
qed

lemma PositionOfLeftmostOne_bound: "unat (PositionOfLeftmostOne p bset) \<le> 64 - p"
  by (simp add: PositionOfLeftmostOne_def PositionOfLeftmostOne_loop_bound)

lemma PositionOfRightMostOne_loop_bound:
  "p \<le> 64 \<Longrightarrow> unat (PositionOfRightMostOne_loop p i bset) \<le> 64 - p"
proof (induction "64 - p - i" arbitrary: i)
  case 0
  then have c: "\<not> int i < 64 - int p" by simp
  have e1: "word_of_int (64 - int p) = (of_nat (64 - p) :: 64 word)"
    using "0.prems" by simp
  have e2: "unat (of_nat (64 - p) :: 64 word) = 64 - p"
    by (intro unat_of_nat_small) simp
  have "PositionOfRightMostOne_loop p i bset = word_of_int (64 - int p)"
    using c by (subst PositionOfRightMostOne_loop_unfold) simp
  then show ?case by (simp only: e1 e2 order_refl)
next
  case (Suc n)
  from Suc.hyps(2) have lt: "i < 64 - p" and n: "n = 64 - p - Suc i" by simp_all
  from lt have c: "int i < 64 - int p" by simp
  have ih: "unat (PositionOfRightMostOne_loop p (Suc i) bset) \<le> 64 - p"
    by (rule Suc.hyps(1) [OF n Suc.prems])
  have "unat (of_nat i :: 64 word) = i"
    using lt by (intro unat_of_nat_small) simp
  with lt have "unat (of_nat i :: 64 word) \<le> 64 - p" by simp
  with ih c show ?case
    by (subst PositionOfRightMostOne_loop_unfold) simp
qed

lemma PositionOfRightMostOne_bound: "p \<le> 64 \<Longrightarrow> unat (PositionOfRightMostOne p bset) \<le> 64 - p"
  by (simp add: PositionOfRightMostOne_def PositionOfRightMostOne_loop_bound)

subsection \<open>One call\<close>

lemma HyperLogLog_AddElem_step:
  assumes inv: "HyperLogLog_inv s"
  shows "\<exists>s'. HyperLogLog_AddElem H k s = Inr s' \<and> HyperLogLog_inv s' \<and>
     n_bits s' = n_bits s \<and> cardinality s' = cardinality s \<and>
     length (buckets s') = length (buckets s) \<and>
     (\<forall>i < length (buckets s).
        buckets s' ! i = buckets s ! i \<or>
        buckets s ! i < buckets s' ! i \<and>
        buckets s' ! i = PositionOfLeftmostOne (n_bits s) (ComputeBinary (H k)))"
proof -
  from inv have p: "n_bits s \<le> 30" and len: "length (buckets s) = 2 ^ n_bits s"
    and regs: "\<forall>b \<in> set (buckets s). unat b \<le> 64 - n_bits s"
    by (simp_all add: HyperLogLog_inv_def)
  define b where "b = ComputeBinary (H k)"
  define lmo where "lmo = PositionOfLeftmostOne (n_bits s) b"
  from p have "n_bits s \<le> 31" by simp
  from ComputeBucket_closed [OF this, of b] obtain n where
    n: "ComputeBucket (n_bits s) b = Inr n" and n0: "0 \<le> n" and n1: "n < 2 ^ n_bits s"
    by blast
  from n0 n1 len have r: "nat n < length (buckets s)"
    by (simp add: nat_less_iff)
  have lb: "unat lmo \<le> 64 - n_bits s"
    unfolding lmo_def by (rule PositionOfLeftmostOne_bound)
  show ?thesis
  proof (cases "lmo \<le> buckets s ! nat n")
    case True
    with n n0 r have "HyperLogLog_AddElem H k s = Inr s"
      by (simp add: HyperLogLog_AddElem_def b_def [symmetric] lmo_def [symmetric])
    with inv show ?thesis by simp
  next
    case False
    define s' where "s' = s\<lparr>buckets := (buckets s)[nat n := lmo]\<rparr>"
    from False n n0 r have e: "HyperLogLog_AddElem H k s = Inr s'"
      by (simp add: HyperLogLog_AddElem_def b_def [symmetric] lmo_def [symmetric] s'_def)
    have "\<forall>x \<in> set (buckets s'). unat x \<le> 64 - n_bits s"
    proof
      fix x assume "x \<in> set (buckets s')"
      then have "x \<in> insert lmo (set (buckets s))"
        using set_update_subset_insert [of "buckets s" "nat n" lmo] by (auto simp add: s'_def)
      with regs lb show "unat x \<le> 64 - n_bits s" by auto
    qed
    with p len have inv': "HyperLogLog_inv s'"
      by (simp add: HyperLogLog_inv_def s'_def)
    have "\<forall>i < length (buckets s).
        buckets s' ! i = buckets s ! i \<or>
        buckets s ! i < buckets s' ! i \<and> buckets s' ! i = lmo"
    proof (intro allI impI)
      fix i assume i: "i < length (buckets s)"
      show "buckets s' ! i = buckets s ! i \<or>
        buckets s ! i < buckets s' ! i \<and> buckets s' ! i = lmo"
      proof (cases "i = nat n")
        case True
        with False i show ?thesis by (simp add: s'_def not_le)
      next
        case False
        then show ?thesis by (simp add: s'_def)
      qed
    qed
    with e inv' show ?thesis
      by (simp add: s'_def lmo_def b_def)
  qed
qed

lemma HyperLogLogPresto_AddElem_general:
  fixes t :: "'w::len HyperLogLogPresto"
  assumes inv: "HyperLogLogPresto_inv t"
  shows "\<exists>t'. HyperLogLogPresto_AddElem H k t = Inr t' \<and> HyperLogLogPresto_inv t' \<and>
     n_leading_bits t' = n_leading_bits t \<and> presto_cardinality t' = presto_cardinality t \<and>
     length (dense_bucket t') = length (dense_bucket t) \<and>
     (\<forall>index. unat index < length (dense_bucket t) \<longrightarrow>
        (\<exists>v v'. GetBucketValue t index = Inr v \<and> GetBucketValue t' index = Inr v' \<and>
           (v' = v \<or>
            v < PositionOfRightMostOne (n_leading_bits t) (H k) \<and>
            unat v' \<le> unat (PositionOfRightMostOne (n_leading_bits t) (H k)) \<and>
            (unat (PositionOfRightMostOne (n_leading_bits t) (H k)) < 2 ^ (4 + LENGTH('w)) \<longrightarrow>
               v' = PositionOfRightMostOne (n_leading_bits t) (H k)))))"
proof -
  from inv have p: "n_leading_bits t \<le> 30"
    and len: "length (dense_bucket t) = 2 ^ n_leading_bits t"
    and ovs: "\<forall>k second. overflow_bucket t k = Some second \<longrightarrow> unat second \<le> 4"
    and regs: "\<forall>index. unat index < length (dense_bucket t) \<longrightarrow>
        (\<exists>v. GetBucketValue t index = Inr v \<and> unat v \<le> 64 - n_leading_bits t)"
    by (simp_all add: HyperLogLogPresto_inv_def)
  define rmo where "rmo = PositionOfRightMostOne (n_leading_bits t) (H k)"
  from p have "n_leading_bits t \<le> 31" by simp
  from ComputeBucket_closed [OF this, of "H k"] obtain n where
    n: "ComputeBucketIndex (n_leading_bits t) (H k) = Inr (word_of_int n)"
    and n0: "0 \<le> n" and n1: "n < 2 ^ n_leading_bits t"
    by blast
  define bi :: "64 word" where "bi = word_of_int n"
  have "(2 :: int) ^ n_leading_bits t \<le> 2 ^ 30" using p by (intro power_increasing) simp_all
  with n1 have "n < 2 ^ 30" by simp
  with n0 have "unat bi = nat n" unfolding bi_def by (intro unat_word_of_int_small)
  with n0 n1 len have r: "unat bi < length (dense_bucket t)" by (simp add: nat_less_iff)
  from p have "n_leading_bits t \<le> 64" by simp
  then have rb: "unat rmo \<le> 64 - n_leading_bits t"
    unfolding rmo_def by (rule PositionOfRightMostOne_bound)
  then have r64: "unat rmo \<le> 64" by simp
  from regs r obtain cur where cur: "GetBucketValue t bi = Inr cur" by blast
  show ?thesis
  proof (cases "rmo > cur")
    case False
    with n cur have "HyperLogLogPresto_AddElem H k t = Inr t"
      by (simp add: HyperLogLogPresto_AddElem_def bi_def [symmetric] rmo_def [symmetric])
    moreover have "\<forall>index. unat index < length (dense_bucket t) \<longrightarrow>
        (\<exists>v v'. GetBucketValue t index = Inr v \<and> GetBucketValue t index = Inr v' \<and>
           (v' = v \<or> v < rmo \<and> unat v' \<le> unat rmo \<and>
             (unat rmo < 2 ^ (4 + LENGTH('w)) \<longrightarrow> v' = rmo)))"
      using regs by blast
    ultimately show ?thesis using inv by (simp add: rmo_def)
  next
    case True
    have c: "16 \<le> rmo \<or> overflow_bucket t bi = None \<or> overflow_bucket t bi = Some 0"
    proof (cases "16 \<le> rmo")
      case True
      then show ?thesis by simp
    next
      case False
      with \<open>rmo > cur\<close> have small: "cur < 16" by simp
      show ?thesis
      proof (cases "overflow_bucket t bi")
        case None
        then show ?thesis by simp
      next
        case (Some second)
        with ovs have "unat second \<le> 4" by blast
        with cur Some small have "second = 0" by (intro GetBucketValue_lower)
        with Some show ?thesis by simp
      qed
    qed
    have "\<exists>t' v'. SetBucketValue t bi rmo = Inr t' \<and> GetBucketValue t' bi = Inr v' \<and>
        unat v' \<le> unat rmo \<and> (unat rmo < 2 ^ (4 + LENGTH('w)) \<longrightarrow> v' = rmo)"
    proof (cases "unat rmo < 2 ^ (4 + LENGTH('w))")
      case True
      from SetBucketValue_roundtrip [OF r True c] show ?thesis by auto
    next
      case False
      have "16 \<le> rmo"
      proof (rule ccontr)
        assume "\<not> 16 \<le> rmo"
        then have "unat rmo < 2 ^ 4" by (simp add: word_less_nat_alt not_le)
        also have "(2 :: nat) ^ 4 \<le> 2 ^ (4 + LENGTH('w))" by (intro power_increasing) simp_all
        finally show False using False by simp
      qed
      from SetBucketValue_upper [OF r r64 this] False show ?thesis by auto
    qed
    then obtain t' v' where
      set: "SetBucketValue t bi rmo = Inr t'" and get: "GetBucketValue t' bi = Inr v'"
      and le: "unat v' \<le> unat rmo"
      and exact: "unat rmo < 2 ^ (4 + LENGTH('w)) \<longrightarrow> v' = rmo"
      by blast
    from n cur True set have e: "HyperLogLogPresto_AddElem H k t = Inr t'"
      by (simp add: HyperLogLogPresto_AddElem_def bi_def [symmetric] rmo_def [symmetric])
    from SetBucketValue_fields [OF set] have
      f1: "n_leading_bits t' = n_leading_bits t" and f2: "presto_cardinality t' = presto_cardinality t"
      and f3: "length (dense_bucket t') = length (dense_bucket t)"
      and f4: "\<forall>k second. overflow_bucket t' k = Some second \<longrightarrow>
         overflow_bucket t k = Some second \<or> second = ucast (drop_bit 4 rmo)"
      by simp_all
    have o': "\<forall>k second. overflow_bucket t' k = Some second \<longrightarrow> unat second \<le> 4"
    proof (intro allI impI)
      fix k second assume "overflow_bucket t' k = Some second"
      with f4 have "overflow_bucket t k = Some second \<or> second = ucast (drop_bit 4 rmo)" by blast
      moreover have "unat (ucast (drop_bit 4 rmo) :: 'w word) \<le> 4"
        using r64 by (rule small_ucast_overflow)
      ultimately show "unat second \<le> 4" using ovs by blast
    qed
    have step: "\<exists>v v'. GetBucketValue t index = Inr v \<and> GetBucketValue t' index = Inr v' \<and>
           unat v' \<le> 64 - n_leading_bits t \<and>
           (v' = v \<or> v < rmo \<and> unat v' \<le> unat rmo \<and>
             (unat rmo < 2 ^ (4 + LENGTH('w)) \<longrightarrow> v' = rmo))"
      if "unat index < length (dense_bucket t)" for index
    proof (cases "index = bi")
      case True
      from le rb have "unat v' \<le> 64 - n_leading_bits t" by simp
      with True cur get le exact \<open>rmo > cur\<close> show ?thesis by simp
    next
      case False
      from regs that obtain v where "GetBucketValue t index = Inr v" "unat v \<le> 64 - n_leading_bits t"
        by blast
      moreover have "GetBucketValue t' index = GetBucketValue t index"
        using set False by (rule SetBucketValue_other)
      ultimately show ?thesis by simp
    qed
    have inv': "HyperLogLogPresto_inv t'"
      unfolding HyperLogLogPresto_inv_def f1 f3 using p len o' step by blast
    from step have "\<forall>index. unat index < length (dense_bucket t) \<longrightarrow>
        (\<exists>v v'. GetBucketValue t index = Inr v \<and> GetBucketValue t' index = Inr v' \<and>
           (v' = v \<or> v < rmo \<and> unat v' \<le> unat rmo \<and>
             (unat rmo < 2 ^ (4 + LENGTH('w)) \<longrightarrow> v' = rmo)))"
      by blast
    with e inv' f1 f2 f3 show ?thesis by (simp add: rmo_def)
  qed
qed

lemma HyperLogLogPresto_AddElem_step:
  fixes t :: "'w::len HyperLogLogPresto"
  assumes inv: "HyperLogLogPresto_inv t" and w: "3 \<le> LENGTH('w)"
  shows "\<exists>t'. HyperLogLogPresto_AddElem H k t = Inr t' \<and> HyperLogLogPresto_inv t' \<and>
     n_leading_bits t' = n_leading_bits t \<and> presto_cardinality t' = presto_cardinality t \<and>
     length (dense_bucket t') = length (dense_bucket t) \<and>
     (\<forall>index. unat index < length (dense_bucket t) \<longrightarrow>
        (\<exists>v v'. GetBucketValue t index = Inr v \<and> GetBucketValue t' index = Inr v' \<and>
           (v' = v \<or> v < v' \<and> v' = PositionOfRightMostOne (n_leading_bits t) (H k))))"
proof -
  define rmo where "rmo = PositionOfRightMostOne (n_leading_bits t) (H k)"
  from inv have "n_leading_bits t \<le> 64" by (simp add: HyperLogLogPresto_inv_def)
  then have "unat rmo \<le> 64 - n_leading_bits t"
    unfolding rmo_def by (rule PositionOfRightMostOne_bound)
  then have "unat rmo \<le> 64" by simp
  also have "(64 :: nat) < 2 ^ (4 + 3)" by simp
  also have "(2 :: nat) ^ (4 + 3) \<le> 2 ^ (4 + LENGTH('w))" using w by (intro power_increasing) simp_all
  finally have fit: "unat rmo < 2 ^ (4 + LENGTH('w))" .
  from HyperLogLogPresto_AddElem_general [OF inv, of H k] obtain t' where
    a: "HyperLogLogPresto_AddElem H k t = Inr t'" "HyperLogLogPresto_inv t'"
      "n_leading_bits t' = n_leading_bits t" "presto_cardinality t' = presto_cardinality t"
      "length (dense_bucket t') = length (dense_bucket t)"
    and g: "\<forall>index. unat index < length (dense_bucket t) \<longrightarrow>
        (\<exists>v v'. GetBucketValue t index = Inr v \<and> GetBucketValue t' index = Inr v' \<and>
           (v' = v \<or> v < rmo \<and> unat v' \<le> unat rmo \<and>
            (unat rmo < 2 ^ (4 + LENGTH('w)) \<longrightarrow> v' = rmo)))"
    unfolding rmo_def by blast
  have "\<forall>index. unat index < length (dense_bucket t) \<longrightarrow>
        (\<exists>v v'. GetBucketValue t index = Inr v \<and> GetBucketValue t' index = Inr v' \<and>
           (v' = v \<or> v < v' \<and> v' = rmo))"
  proof (intro allI impI)
    fix index :: "64 word" assume "unat index < length (dense_bucket t)"
    with g obtain v v' where "GetBucketValue t index = Inr v" "GetBucketValue t' index = Inr v'"
      "v' = v \<or> v < rmo \<and> unat v' \<le> unat rmo \<and> (unat rmo < 2 ^ (4 + LENGTH('w)) \<longrightarrow> v' = rmo)"
      by blast
    with fit show "\<exists>v v'. GetBucketValue t index = Inr v \<and> GetBucketValue t' index = Inr v' \<and>
           (v' = v \<or> v < v' \<and> v' = rmo)"
      by auto
  qed
  with a show ?thesis unfolding rmo_def by blast
qed

subsection \<open>Sequences of calls\<close>

lemma HyperLogLog_AddElems:
  "HyperLogLog_inv s0 \<Longrightarrow>
   \<exists>s. HyperLogLog_calls H C (map AddElem ks) s0 = Inr s \<and> HyperLogLog_inv s \<and>
     n_bits s = n_bits s0 \<and> cardinality s = cardinality s0 \<and>
     length (buckets s) = length (buckets s0) \<and>
     (\<forall>i < length (buckets s0). buckets s0 ! i \<le> buckets s ! i)"
proof (induction ks arbitrary: s0)
  case Nil
  then show ?case by simp
next
  case (Cons k ks)
  from HyperLogLog_AddElem_step [OF Cons.prems, of H k] obtain s1 where
    a: "HyperLogLog_AddElem H k s0 = Inr s1" and i1: "HyperLogLog_inv s1"
    and f: "n_bits s1 = n_bits s0" "cardinality s1 = cardinality s0"
      "length (buckets s1) = length (buckets s0)"
    and m: "\<forall>i < length (buckets s0). buckets s1 ! i = buckets s0 ! i \<or>
        buckets s0 ! i < buckets s1 ! i \<and>
        buckets s1 ! i = PositionOfLeftmostOne (n_bits s0) (ComputeBinary (H k))"
    by blast
  from Cons.IH [OF i1] obtain s where
    r: "HyperLogLog_calls H C (map AddElem ks) s1 = Inr s" and i2: "HyperLogLog_inv s"
    and g: "n_bits s = n_bits s1" "cardinality s = cardinality s1"
      "length (buckets s) = length (buckets s1)"
    and m2: "\<forall>i < length (buckets s1). buckets s1 ! i \<le> buckets s ! i"
    by blast
  have "\<forall>i < length (buckets s0). buckets s0 ! i \<le> buckets s ! i"
  proof (intro allI impI)
    fix i assume i: "i < length (buckets s0)"
    with m have "buckets s0 ! i \<le> buckets s1 ! i" by auto
    moreover from i m2 f have "buckets s1 ! i \<le> buckets s ! i" by simp
    ultimately show "buckets s0 ! i \<le> buckets s ! i" by simp
  qed
  with a r i2 f g show ?case by (simp add: HyperLogLog_call_def)
qed

lemma HyperLogLogPresto_AddElems:
  fixes t0 :: "'w::len HyperLogLogPresto"
  assumes "HyperLogLogPresto_inv t0" and w: "3 \<le> LENGTH('w)"
  shows "\<exists>t. HyperLogLogPresto_calls H C (map AddElem ks) t0 = Inr t \<and> HyperLogLogPresto_inv t \<and>
     n_leading_bits t = n_leading_bits t0 \<and> presto_cardinality t = presto_cardinality t0 \<and>
     length (dense_bucket t) = length (dense_bucket t0) \<and>
     (\<forall>index. unat index < length (dense_bucket t0) \<longrightarrow>
        (\<exists>v v'. GetBucketValue t0 index = Inr v \<and> GetBucketValue t index = Inr v' \<and> v \<le> v'))"
  using assms(1)
proof (induction ks arbitrary: t0)
  case Nil
  then show ?case by (auto simp add: HyperLogLogPresto_inv_def)
next
  case (Cons k ks)
  from HyperLogLogPresto_AddElem_step [OF Cons.prems w, of H k] obtain t1 where
    a: "HyperLogLogPresto_AddElem H k t0 = Inr t1" and i1: "HyperLogLogPresto_inv t1"
    and f: "n_leading_bits t1 = n_leading_bits t0" "presto_cardinality t1 = presto_cardinality t0"
      "length (dense_bucket t1) = length (dense_bucket t0)"
    and m: "\<forall>index. unat index < length (dense_bucket t0) \<longrightarrow>
        (\<exists>v v'. GetBucketValue t0 index = Inr v \<and> GetBucketValue t1 index = Inr v' \<and>
           (v' = v \<or> v < v' \<and> v' = PositionOfRightMostOne (n_leading_bits t0) (H k)))"
    by blast
  from Cons.IH [OF i1] obtain t where
    r: "HyperLogLogPresto_calls H C (map AddElem ks) t1 = Inr t" and i2: "HyperLogLogPresto_inv t"
    and g: "n_leading_bits t = n_leading_bits t1" "presto_cardinality t = presto_cardinality t1"
      "length (dense_bucket t) = length (dense_bucket t1)"
    and m2: "\<forall>index. unat index < length (dense_bucket t1) \<longrightarrow>
        (\<exists>v v'. GetBucketValue t1 index = Inr v \<and> GetBucketValue t index = Inr v' \<and> v \<le> v')"
    by blast
  have "\<forall>index. unat index < length (dense_bucket t0) \<longrightarrow>
        (\<exists>v v'. GetBucketValue t0 index = Inr v \<and> GetBucketValue t index = Inr v' \<and> v \<le> v')"
  proof (intro allI impI)
    fix index :: "64 word" assume i: "unat index < length (dense_bucket t0)"
    with m obtain v v1 where "GetBucketValue t0 index = Inr v" "GetBucketValue t1 index = Inr v1"
      "v \<le> v1" by fastforce
    moreover from i m2 f obtain v1' v2 where "GetBucketValue t1 index = Inr v1'"
      "GetBucketValue t index = Inr v2" "v1' \<le> v2" by fastforce
    ultimately show "\<exists>v v'. GetBucketValue t0 index = Inr v \<and> GetBucketValue t index = Inr v' \<and> v \<le> v'"
      by auto
  qed
  with a r i2 f g show ?case by (simp add: HyperLogLogPresto_call_def)
qed

lemma HyperLogLogPresto_AddElems_inv:
  fixes t0 :: "'w::len HyperLogLogPresto"
  shows "HyperLogLogPresto_inv t0 \<Longrightarrow>
    \<exists>t. HyperLogLogPresto_calls H C (map AddElem ks) t0 = Inr t \<and> HyperLogLogPresto_inv t"
proof (induction ks arbitrary: t0)
  case Nil
  then show ?case by simp
next
  case (Cons k ks)
  from HyperLogLogPresto_AddElem_general [OF Cons.prems, of H k] obtain t1 where
    a: "HyperLogLogPresto_AddElem H k t0 = Inr t1" and i1: "HyperLogLogPresto_inv t1"
    by blast
  from Cons.IH [OF i1] a show ?case by (simp add: HyperLogLogPresto_call_def)
qed

text \<open>
  Claim C4. Take either estimator as constructed, run any sequence \<open>ks\<close> of \<^verbatim>\<open>AddElem\<close>
  calls, and call the state reached \<open>s1\<close> (\<open>t1\<close> for the compact estimator). Then one more
  \<^verbatim>\<open>AddElem\<close> succeeds and leaves every register either unchanged or overwritten with a
  strictly greater value, which is the rank of the key added; and after any further
  sequence \<open>ks'\<close> of \<^verbatim>\<open>AddElem\<close> calls no register is below its value in \<open>s1\<close>. For
  the compact estimator the register value is the combined one that \<^verbatim>\<open>GetBucketValue\<close>
  returns, and the overflow field is at least 3 bits wide, so that every rank up to 64 fits.
\<close>

theorem AddElem_registers_never_decrease:
  fixes t0 :: "'w::len HyperLogLogPresto"
  assumes "HyperLogLog_ctor a = Inr s0" and "HyperLogLogPresto_ctor a' = Inr t0"
    and "3 \<le> LENGTH('w)"
  shows
    "(\<exists>s1 s2 s3. HyperLogLog_calls H C (map AddElem ks) s0 = Inr s1 \<and>
        HyperLogLog_AddElem H k s1 = Inr s2 \<and>
        HyperLogLog_calls H C (map AddElem ks') s1 = Inr s3 \<and>
        length (buckets s2) = length (buckets s1) \<and>
        length (buckets s3) = length (buckets s1) \<and>
        (\<forall>i < length (buckets s1).
           (buckets s2 ! i = buckets s1 ! i \<or>
            buckets s1 ! i < buckets s2 ! i \<and>
            buckets s2 ! i = PositionOfLeftmostOne (n_bits s1) (ComputeBinary (H k))) \<and>
           buckets s1 ! i \<le> buckets s3 ! i)) \<and>
     (\<exists>t1 t2 t3. HyperLogLogPresto_calls H C (map AddElem ks) t0 = Inr t1 \<and>
        HyperLogLogPresto_AddElem H k t1 = Inr t2 \<and>
        HyperLogLogPresto_calls H C (map AddElem ks') t1 = Inr t3 \<and>
        length (dense_bucket t2) = length (dense_bucket t1) \<and>
        length (dense_bucket t3) = length (dense_bucket t1) \<and>
        (\<forall>index. unat index < length (dense_bucket t1) \<longrightarrow>
           (\<exists>v v2 v3. GetBucketValue t1 index = Inr v \<and> GetBucketValue t2 index = Inr v2 \<and>
              GetBucketValue t3 index = Inr v3 \<and>
              (v2 = v \<or> v < v2 \<and> v2 = PositionOfRightMostOne (n_leading_bits t1) (H k)) \<and>
              v \<le> v3)))"
proof
  from assms(1) have "HyperLogLog_inv s0" by (rule HyperLogLog_ctor_inv)
  from HyperLogLog_AddElems [OF this, of H C ks] obtain s1 where
    1: "HyperLogLog_calls H C (map AddElem ks) s0 = Inr s1" and i1: "HyperLogLog_inv s1"
    by blast
  from HyperLogLog_AddElem_step [OF i1, of H k] obtain s2 where
    2: "HyperLogLog_AddElem H k s1 = Inr s2" "length (buckets s2) = length (buckets s1)"
     "\<forall>i < length (buckets s1).
        buckets s2 ! i = buckets s1 ! i \<or>
        buckets s1 ! i < buckets s2 ! i \<and>
        buckets s2 ! i = PositionOfLeftmostOne (n_bits s1) (ComputeBinary (H k))"
    by blast
  from HyperLogLog_AddElems [OF i1, of H C ks'] obtain s3 where
    3: "HyperLogLog_calls H C (map AddElem ks') s1 = Inr s3" "length (buckets s3) = length (buckets s1)"
      "\<forall>i < length (buckets s1). buckets s1 ! i \<le> buckets s3 ! i"
    by blast
  from 1 2 3 show "\<exists>s1 s2 s3. HyperLogLog_calls H C (map AddElem ks) s0 = Inr s1 \<and>
        HyperLogLog_AddElem H k s1 = Inr s2 \<and>
        HyperLogLog_calls H C (map AddElem ks') s1 = Inr s3 \<and>
        length (buckets s2) = length (buckets s1) \<and>
        length (buckets s3) = length (buckets s1) \<and>
        (\<forall>i < length (buckets s1).
           (buckets s2 ! i = buckets s1 ! i \<or>
            buckets s1 ! i < buckets s2 ! i \<and>
            buckets s2 ! i = PositionOfLeftmostOne (n_bits s1) (ComputeBinary (H k))) \<and>
           buckets s1 ! i \<le> buckets s3 ! i)"
    by blast
next
  from assms(2) have "HyperLogLogPresto_inv t0" by (rule HyperLogLogPresto_ctor_inv)
  from HyperLogLogPresto_AddElems [OF this assms(3), of H C ks] obtain t1 where
    1: "HyperLogLogPresto_calls H C (map AddElem ks) t0 = Inr t1" and i1: "HyperLogLogPresto_inv t1"
    by blast
  from HyperLogLogPresto_AddElem_step [OF i1 assms(3), of H k] obtain t2 where
    2: "HyperLogLogPresto_AddElem H k t1 = Inr t2" "length (dense_bucket t2) = length (dense_bucket t1)"
     "\<forall>index. unat index < length (dense_bucket t1) \<longrightarrow>
        (\<exists>v v'. GetBucketValue t1 index = Inr v \<and> GetBucketValue t2 index = Inr v' \<and>
           (v' = v \<or> v < v' \<and> v' = PositionOfRightMostOne (n_leading_bits t1) (H k)))"
    by blast
  from HyperLogLogPresto_AddElems [OF i1 assms(3), of H C ks'] obtain t3 where
    3: "HyperLogLogPresto_calls H C (map AddElem ks') t1 = Inr t3"
      "length (dense_bucket t3) = length (dense_bucket t1)"
      "\<forall>index. unat index < length (dense_bucket t1) \<longrightarrow>
        (\<exists>v v'. GetBucketValue t1 index = Inr v \<and> GetBucketValue t3 index = Inr v' \<and> v \<le> v')"
    by blast
  have "\<forall>index. unat index < length (dense_bucket t1) \<longrightarrow>
           (\<exists>v v2 v3. GetBucketValue t1 index = Inr v \<and> GetBucketValue t2 index = Inr v2 \<and>
              GetBucketValue t3 index = Inr v3 \<and>
              (v2 = v \<or> v < v2 \<and> v2 = PositionOfRightMostOne (n_leading_bits t1) (H k)) \<and>
              v \<le> v3)"
  proof (intro allI impI)
    fix index :: "64 word" assume i: "unat index < length (dense_bucket t1)"
    with 2(3) obtain v v2 where a: "GetBucketValue t1 index = Inr v" "GetBucketValue t2 index = Inr v2"
      "v2 = v \<or> v < v2 \<and> v2 = PositionOfRightMostOne (n_leading_bits t1) (H k)" by blast
    from i 3(3) obtain u v3 where b: "GetBucketValue t1 index = Inr u" "GetBucketValue t3 index = Inr v3"
      "u \<le> v3" by blast
    from a(1) b(1) have "u = v" by simp
    with a b show "\<exists>v v2 v3. GetBucketValue t1 index = Inr v \<and> GetBucketValue t2 index = Inr v2 \<and>
              GetBucketValue t3 index = Inr v3 \<and>
              (v2 = v \<or> v < v2 \<and> v2 = PositionOfRightMostOne (n_leading_bits t1) (H k)) \<and>
              v \<le> v3" by blast
  qed
  with 1 2(1,2) 3(1,2) show "\<exists>t1 t2 t3. HyperLogLogPresto_calls H C (map AddElem ks) t0 = Inr t1 \<and>
        HyperLogLogPresto_AddElem H k t1 = Inr t2 \<and>
        HyperLogLogPresto_calls H C (map AddElem ks') t1 = Inr t3 \<and>
        length (dense_bucket t2) = length (dense_bucket t1) \<and>
        length (dense_bucket t3) = length (dense_bucket t1) \<and>
        (\<forall>index. unat index < length (dense_bucket t1) \<longrightarrow>
           (\<exists>v v2 v3. GetBucketValue t1 index = Inr v \<and> GetBucketValue t2 index = Inr v2 \<and>
              GetBucketValue t3 index = Inr v3 \<and>
              (v2 = v \<or> v < v2 \<and> v2 = PositionOfRightMostOne (n_leading_bits t1) (H k)) \<and>
              v \<le> v3))"
    by blast
qed

theorem AddElem_registers_never_decrease_witness:
  "(\<exists>s1 s2 s3. HyperLogLog_calls id 0 (map AddElem [0x8000000000000004]) \<lparr>n_bits = 1, buckets = [0, 0], cardinality = 0\<rparr> = Inr s1 \<and>
        HyperLogLog_AddElem id (0x4000000000000001 :: 64 word) s1 = Inr s2 \<and>
        HyperLogLog_calls id 0 (map AddElem [0x0000000000000001]) s1 = Inr s3 \<and>
        length (buckets s2) = length (buckets s1) \<and>
        length (buckets s3) = length (buckets s1) \<and>
        (\<forall>i < length (buckets s1).
           (buckets s2 ! i = buckets s1 ! i \<or>
            buckets s1 ! i < buckets s2 ! i \<and>
            buckets s2 ! i = PositionOfLeftmostOne (n_bits s1) (ComputeBinary (id 0x4000000000000001))) \<and>
           buckets s1 ! i \<le> buckets s3 ! i)) \<and>
     (\<exists>t1 t2 t3. HyperLogLogPresto_calls id 0 (map AddElem [0x8000000000000004])
          \<lparr>n_leading_bits = 1, dense_bucket = [0, 0], overflow_bucket = Map.empty,
           presto_cardinality = 0\<rparr> = Inr (t1 :: 3 HyperLogLogPresto) \<and>
        HyperLogLogPresto_AddElem id (0x4000000000000001 :: 64 word) t1 = Inr t2 \<and>
        HyperLogLogPresto_calls id 0 (map AddElem [0x0000000000000001]) t1 = Inr t3 \<and>
        length (dense_bucket t2) = length (dense_bucket t1) \<and>
        length (dense_bucket t3) = length (dense_bucket t1) \<and>
        (\<forall>index. unat index < length (dense_bucket t1) \<longrightarrow>
           (\<exists>v v2 v3. GetBucketValue t1 index = Inr v \<and> GetBucketValue t2 index = Inr v2 \<and>
              GetBucketValue t3 index = Inr v3 \<and>
              (v2 = v \<or> v < v2 \<and> v2 = PositionOfRightMostOne (n_leading_bits t1) (id 0x4000000000000001)) \<and>
              v \<le> v3)))"
proof -
  have le: "sint (1 :: 16 word) \<le> 30" by simp
  have h1: "HyperLogLog_ctor 1 = Inr \<lparr>n_bits = 1, buckets = [0, 0], cardinality = 0\<rparr>"
    using HyperLogLog_ctor_closed [OF le] by (simp add: numeral_2_eq_2)
  have h2: "HyperLogLogPresto_ctor 1 =
      Inr (\<lparr>n_leading_bits = 1, dense_bucket = [0, 0], overflow_bucket = Map.empty,
           presto_cardinality = 0\<rparr> :: 3 HyperLogLogPresto)"
    using HyperLogLogPresto_ctor_closed [OF le, where 'a = 3] by (simp add: numeral_2_eq_2)
  have h3: "3 \<le> LENGTH(3)" by simp
  show ?thesis
    by (rule AddElem_registers_never_decrease [OF h1 h2 h3])
qed

section \<open>What a call changes\<close>

lemma ComputeBucket_zero: "ComputeBucket 0 bset = Inr 0"
  by (simp add: ComputeBucket_def ComputeBucket_loop_unfold)

lemma ComputeBucketIndex_zero: "ComputeBucketIndex 0 bset = Inr 0"
  by (simp add: ComputeBucketIndex_def ComputeBucketIndex_loop_unfold)

lemma HyperLogLog_AddElem_fields:
  "HyperLogLog_AddElem H k s = Inr s' \<Longrightarrow>
   n_bits s' = n_bits s \<and> cardinality s' = cardinality s \<and> length (buckets s') = length (buckets s)"
  by (auto simp add: HyperLogLog_AddElem_def Let_def split: sum.splits if_splits)

lemma HyperLogLog_ComputeCardinality_cases:
  "HyperLogLog_ComputeCardinality C s = Inr s' \<Longrightarrow>
   s' = s \<or>
   cardinality s < cardinality s' \<and> s' = s\<lparr>cardinality := cardinality s'\<rparr> \<and>
   size_t_of_double (of_int \<lfloor>C * real (length (buckets s)) * real (length (buckets s)) /
       HyperLogLog_sum (buckets s)\<rfloor>) = Inr (cardinality s')"
  by (auto simp add: HyperLogLog_ComputeCardinality_def Let_def not_le split: sum.splits if_splits)

lemma HyperLogLog_call_fields:
  "HyperLogLog_call H C c s = Inr s' \<Longrightarrow>
   n_bits s' = n_bits s \<and> buckets s' = buckets s \<or>
   (\<exists>k. c = AddElem k) \<and> n_bits s' = n_bits s \<and> length (buckets s') = length (buckets s) \<and>
     cardinality s' = cardinality s"
proof (cases c)
  case (AddElem k)
  assume "HyperLogLog_call H C c s = Inr s'"
  with AddElem have "HyperLogLog_AddElem H k s = Inr s'" by (simp add: HyperLogLog_call_def)
  from HyperLogLog_AddElem_fields [OF this] AddElem show ?thesis by simp
next
  case ComputeCardinality
  assume "HyperLogLog_call H C c s = Inr s'"
  with ComputeCardinality have "HyperLogLog_ComputeCardinality C s = Inr s'"
    by (simp add: HyperLogLog_call_def)
  from HyperLogLog_ComputeCardinality_cases [OF this] show ?thesis
    by (metis HyperLogLog.select_convs(1,2) HyperLogLog.surjective HyperLogLog.update_convs(3))
qed

lemma HyperLogLog_call_cardinality:
  "HyperLogLog_call H C c s = Inr s' \<Longrightarrow> cardinality s \<le> cardinality s'"
proof (cases c)
  case (AddElem k)
  assume "HyperLogLog_call H C c s = Inr s'"
  with AddElem have "HyperLogLog_AddElem H k s = Inr s'" by (simp add: HyperLogLog_call_def)
  from HyperLogLog_AddElem_fields [OF this] show ?thesis by simp
next
  case ComputeCardinality
  assume "HyperLogLog_call H C c s = Inr s'"
  with ComputeCardinality have "HyperLogLog_ComputeCardinality C s = Inr s'"
    by (simp add: HyperLogLog_call_def)
  from HyperLogLog_ComputeCardinality_cases [OF this] show ?thesis by auto
qed

lemma HyperLogLog_calls_cardinality:
  "HyperLogLog_calls H C cs s = Inr s' \<Longrightarrow>
   cardinality s \<le> cardinality s' \<and> n_bits s' = n_bits s \<and> length (buckets s') = length (buckets s)"
proof (induction cs arbitrary: s)
  case Nil
  then show ?case by simp
next
  case (Cons c cs)
  from Cons.prems obtain s1 where 1: "HyperLogLog_call H C c s = Inr s1"
    and 2: "HyperLogLog_calls H C cs s1 = Inr s'"
    by (auto split: sum.splits)
  from HyperLogLog_call_cardinality [OF 1] HyperLogLog_call_fields [OF 1] Cons.IH [OF 2]
  show ?case by auto
qed

lemma HyperLogLogPresto_AddElem_fields:
  fixes t :: "'w::len HyperLogLogPresto"
  assumes "HyperLogLogPresto_AddElem H k t = Inr t'"
  shows "n_leading_bits t' = n_leading_bits t \<and> presto_cardinality t' = presto_cardinality t \<and>
    length (dense_bucket t') = length (dense_bucket t)"
proof -
  from assms have "t' = t \<or> (\<exists>index v. SetBucketValue t index v = Inr t')"
    by (auto simp add: HyperLogLogPresto_AddElem_def Let_def split: sum.splits if_splits)
  then show ?thesis using SetBucketValue_fields by blast
qed

lemma HyperLogLogPresto_ComputeCardinality_cases:
  fixes t :: "'w::len HyperLogLogPresto"
  assumes "HyperLogLogPresto_ComputeCardinality C t = Inr t'"
  shows "\<exists>sum_acc c. CalBucketSum t = Inr sum_acc \<and> CalCardinality C t sum_acc = Inr c \<and>
    (c \<le> presto_cardinality t \<and> t' = t \<or>
     presto_cardinality t < c \<and> t' = t\<lparr>presto_cardinality := c\<rparr>)"
  using assms
  by (auto simp add: HyperLogLogPresto_ComputeCardinality_def not_le split: sum.splits if_splits)

lemma HyperLogLogPresto_call_fields:
  fixes t :: "'w::len HyperLogLogPresto"
  assumes "HyperLogLogPresto_call H C c t = Inr t'"
  shows "presto_cardinality t \<le> presto_cardinality t' \<and> n_leading_bits t' = n_leading_bits t \<and>
    length (dense_bucket t') = length (dense_bucket t)"
proof (cases c)
  case (AddElem k)
  with assms have "HyperLogLogPresto_AddElem H k t = Inr t'"
    by (simp add: HyperLogLogPresto_call_def)
  from HyperLogLogPresto_AddElem_fields [OF this] show ?thesis by simp
next
  case ComputeCardinality
  with assms have "HyperLogLogPresto_ComputeCardinality C t = Inr t'"
    by (simp add: HyperLogLogPresto_call_def)
  from HyperLogLogPresto_ComputeCardinality_cases [OF this] show ?thesis by auto
qed

lemma HyperLogLogPresto_calls_cardinality:
  fixes t :: "'w::len HyperLogLogPresto"
  shows "HyperLogLogPresto_calls H C cs t = Inr t' \<Longrightarrow>
   presto_cardinality t \<le> presto_cardinality t' \<and> n_leading_bits t' = n_leading_bits t \<and>
   length (dense_bucket t') = length (dense_bucket t)"
proof (induction cs arbitrary: t)
  case Nil
  then show ?case by simp
next
  case (Cons c cs)
  from Cons.prems obtain t1 where 1: "HyperLogLogPresto_call H C c t = Inr t1"
    and 2: "HyperLogLogPresto_calls H C cs t1 = Inr t'"
    by (auto split: sum.splits)
  from HyperLogLogPresto_call_fields [OF 1] Cons.IH [OF 2]
  show ?case by auto
qed

lemma HyperLogLog_call_change:
  assumes "HyperLogLog_call H C c s = Inr s'"
  shows "cardinality s' = cardinality s \<or>
       c = ComputeCardinality \<and> cardinality s < cardinality s' \<and>
       size_t_of_double (of_int \<lfloor>C * real (length (buckets s)) * real (length (buckets s)) /
          HyperLogLog_sum (buckets s)\<rfloor>) = Inr (cardinality s')"
proof (cases c)
  case (AddElem k)
  with assms have "HyperLogLog_AddElem H k s = Inr s'" by (simp add: HyperLogLog_call_def)
  from HyperLogLog_AddElem_fields [OF this] show ?thesis by simp
next
  case ComputeCardinality
  with assms have "HyperLogLog_ComputeCardinality C s = Inr s'"
    by (simp add: HyperLogLog_call_def)
  from HyperLogLog_ComputeCardinality_cases [OF this] ComputeCardinality show ?thesis by auto
qed

lemma HyperLogLogPresto_call_change:
  fixes t :: "'w::len HyperLogLogPresto"
  assumes "HyperLogLogPresto_call H C c t = Inr t'"
  shows "presto_cardinality t' = presto_cardinality t \<or>
       c = ComputeCardinality \<and> presto_cardinality t < presto_cardinality t' \<and>
       (\<exists>r. CalBucketSum t = Inr r \<and> CalCardinality C t r = Inr (presto_cardinality t'))"
proof (cases c)
  case (AddElem k)
  with assms have "HyperLogLogPresto_AddElem H k t = Inr t'"
    by (simp add: HyperLogLogPresto_call_def)
  from HyperLogLogPresto_AddElem_fields [OF this] show ?thesis by simp
next
  case ComputeCardinality
  with assms have "HyperLogLogPresto_ComputeCardinality C t = Inr t'"
    by (simp add: HyperLogLogPresto_call_def)
  from HyperLogLogPresto_ComputeCardinality_cases [OF this] ComputeCardinality show ?thesis by auto
qed

section \<open>The sum over the registers and the estimate\<close>

lemma fold_add_sum_list:
  "fold (\<lambda>bucket sum_acc. sum_acc + f bucket) bs (a :: real) = a + sum_list (map f bs)"
  by (induction bs arbitrary: a) simp_all

lemma inv_pow2_lower:
  "unat b \<le> n \<Longrightarrow> n \<le> 64 \<Longrightarrow> 1 / 2 ^ n \<le> inv_pow2 b"
proof -
  assume b: "unat b \<le> n" and n: "n \<le> 64"
  then have "unat b < 1024" by simp
  moreover have "(2 :: real) ^ unat b \<le> 2 ^ n" using b by (intro power_increasing) simp_all
  then have "1 / (2 :: real) ^ n \<le> 1 / 2 ^ unat b" by (intro divide_left_mono) simp_all
  ultimately show ?thesis by (simp add: inv_pow2_def)
qed

lemma HyperLogLog_sum_lower:
  assumes "\<forall>b \<in> set bs. unat b \<le> n" and "n \<le> 64"
  shows "real (length bs) / 2 ^ n \<le> HyperLogLog_sum bs"
proof -
  have "sum_list (map (\<lambda>b. 1 / 2 ^ n) bs) \<le> sum_list (map inv_pow2 bs)"
    using assms by (intro sum_list_mono inv_pow2_lower) auto
  then show ?thesis by (simp add: HyperLogLog_sum_def fold_add_sum_list sum_list_triv)
qed

lemma estimate_fits:
  assumes C: "0 \<le> C" "C < 1" and p: "p \<le> 64"
    and s: "(2 :: real) ^ p / 2 ^ (64 - p) \<le> sum_acc"
  shows "\<exists>c. size_t_of_double (of_int \<lfloor>C * real (2 ^ p) * real (2 ^ p) / sum_acc\<rfloor>) = Inr c"
proof -
  define low :: real where "low = 2 ^ p / 2 ^ (64 - p)"
  have low: "0 < low" by (simp add: low_def)
  from s have "low \<le> sum_acc" by (simp only: low_def)
  with low have pos: "0 < sum_acc" by (rule less_le_trans)
  define x where "x = C * real (2 ^ p) * real (2 ^ p) / sum_acc"
  have x0: "0 \<le> x" using C pos by (simp add: x_def)
  have "(2 :: real) ^ p * 2 ^ (64 - p) = 2 ^ 64"
    using p by (simp flip: power_add)
  then have e: "C * real (2 ^ p) * real (2 ^ p) / low = C * 2 ^ 64"
    by (simp add: low_def field_simps)
  have "x \<le> C * real (2 ^ p) * real (2 ^ p) / low"
    unfolding x_def using C low s by (intro divide_left_mono) (simp_all add: low_def pos)
  also have "\<dots> = C * 2 ^ 64" by (rule e)
  also have "\<dots> < 2 ^ 64" using C by simp
  finally have x1: "x < 2 ^ 64" .
  define z where "z = \<lfloor>x\<rfloor>"
  have "real_of_int z \<le> x" by (simp add: z_def)
  with x1 have z1: "real_of_int z < 2 ^ 64" by simp
  from x0 have "0 \<le> z" by (simp add: z_def)
  then have z0: "- 1 < real_of_int z" by simp
  from z0 z1 have "\<exists>c. size_t_of_double (of_int z) = Inr c"
    by (simp add: size_t_of_double_def)
  then show ?thesis by (simp only: z_def x_def)
qed

lemma HyperLogLog_ComputeCardinality_total:
  assumes inv: "HyperLogLog_inv s" and C: "0 \<le> C" "C < 1"
  shows "\<exists>s'. HyperLogLog_ComputeCardinality C s = Inr s' \<and> HyperLogLog_inv s'"
proof -
  from inv have p: "n_bits s \<le> 30" and len: "length (buckets s) = 2 ^ n_bits s"
    and regs: "\<forall>b \<in> set (buckets s). unat b \<le> 64 - n_bits s"
    by (simp_all add: HyperLogLog_inv_def)
  from p have p64: "n_bits s \<le> 64" by simp
  have "real (length (buckets s)) / 2 ^ (64 - n_bits s) \<le> HyperLogLog_sum (buckets s)"
    using regs by (rule HyperLogLog_sum_lower) simp
  then have low: "(2 :: real) ^ n_bits s / 2 ^ (64 - n_bits s) \<le> HyperLogLog_sum (buckets s)"
    by (simp add: len)
  from estimate_fits [OF C p64 low] obtain c where
    c: "size_t_of_double (of_int \<lfloor>C * real (length (buckets s)) * real (length (buckets s)) /
       HyperLogLog_sum (buckets s)\<rfloor>) = Inr c"
    by (auto simp add: len)
  have "HyperLogLog_inv (s\<lparr>cardinality := c\<rparr>)"
    using inv by (simp add: HyperLogLog_inv_def)
  with inv c show ?thesis
    by (simp add: HyperLogLog_ComputeCardinality_def Let_def)
qed

lemma HyperLogLog_calls_total:
  assumes C: "0 \<le> C" "C < 1"
  shows "HyperLogLog_inv s0 \<Longrightarrow> \<exists>s. HyperLogLog_calls H C cs s0 = Inr s \<and> HyperLogLog_inv s"
proof (induction cs arbitrary: s0)
  case Nil
  then show ?case by simp
next
  case (Cons c cs)
  have "\<exists>s1. HyperLogLog_call H C c s0 = Inr s1 \<and> HyperLogLog_inv s1"
  proof (cases c)
    case (AddElem k)
    with HyperLogLog_AddElem_step [OF Cons.prems, of H k] show ?thesis
      by (auto simp add: HyperLogLog_call_def)
  next
    case ComputeCardinality
    with HyperLogLog_ComputeCardinality_total [OF Cons.prems C] show ?thesis
      by (auto simp add: HyperLogLog_call_def)
  qed
  then obtain s1 where 1: "HyperLogLog_call H C c s0 = Inr s1" and i1: "HyperLogLog_inv s1"
    by blast
  from Cons.IH [OF i1] 1 show ?case by simp
qed

lemma CalBucketSum_loop_unfold:
  "CalBucketSum_loop s i sum_acc =
     (if i < length (dense_bucket s) then
        (case GetBucketValue s (of_nat i) of
           Inl e \<Rightarrow> Inl e
         | Inr v \<Rightarrow> CalBucketSum_loop s (Suc i) (sum_acc + inv_pow2 v))
      else Inr sum_acc)"
  by (rule CalBucketSum_loop.simps)

lemma CalBucketSum_loop_lower:
  fixes t :: "'w::len HyperLogLogPresto"
  assumes inv: "HyperLogLogPresto_inv t"
  shows "i \<le> length (dense_bucket t) \<Longrightarrow>
    \<exists>r. CalBucketSum_loop t i a = Inr r \<and>
        a + real (length (dense_bucket t) - i) / 2 ^ (64 - n_leading_bits t) \<le> r"
proof (induction "length (dense_bucket t) - i" arbitrary: i a)
  case 0
  then have "\<not> i < length (dense_bucket t)" by simp
  with 0 show ?case by (subst CalBucketSum_loop_unfold) simp
next
  case (Suc n)
  from inv have p: "n_leading_bits t \<le> 30"
    and len: "length (dense_bucket t) = 2 ^ n_leading_bits t"
    and regs: "\<forall>index. unat index < length (dense_bucket t) \<longrightarrow>
        (\<exists>v. GetBucketValue t index = Inr v \<and> unat v \<le> 64 - n_leading_bits t)"
    by (simp_all add: HyperLogLogPresto_inv_def)
  from Suc.hyps(2) have lt: "i < length (dense_bucket t)" and n: "n = length (dense_bucket t) - Suc i"
    by simp_all
  have "(2 :: nat) ^ n_leading_bits t \<le> 2 ^ 30" using p by (intro power_increasing) simp_all
  with lt len have "i < 2 ^ 64" by simp
  then have "unat (of_nat i :: 64 word) = i" by (simp add: unat_of_nat)
  with lt regs obtain v where v: "GetBucketValue t (of_nat i) = Inr v"
    and vb: "unat v \<le> 64 - n_leading_bits t"
    by (metis (no_types))
  have t1: "1 / 2 ^ (64 - n_leading_bits t) \<le> inv_pow2 v"
    using vb by (rule inv_pow2_lower) simp
  from lt have "Suc i \<le> length (dense_bucket t)" by simp
  from Suc.hyps(1) [OF n this, of "a + inv_pow2 v"] obtain r where
    r: "CalBucketSum_loop t (Suc i) (a + inv_pow2 v) = Inr r"
    and rb: "a + inv_pow2 v + real (length (dense_bucket t) - Suc i) / 2 ^ (64 - n_leading_bits t) \<le> r"
    by blast
  define k where "k = length (dense_bucket t) - Suc i"
  define D :: real where "D = 2 ^ (64 - n_leading_bits t)"
  from lt have e: "length (dense_bucket t) - i = Suc k" by (simp add: k_def)
  have "real (Suc k) / D = 1 / D + real k / D" by (simp add: add_divide_distrib)
  moreover from t1 have "1 / D \<le> inv_pow2 v" by (simp only: D_def)
  moreover from rb have "a + inv_pow2 v + real k / D \<le> r" by (simp only: D_def k_def)
  ultimately have "a + real (Suc k) / D \<le> r" by linarith
  then have "a + real (length (dense_bucket t) - i) / 2 ^ (64 - n_leading_bits t) \<le> r"
    by (simp only: e D_def)
  with lt v r show ?case by (subst CalBucketSum_loop_unfold) simp
qed

lemma CalBucketSum_lower:
  fixes t :: "'w::len HyperLogLogPresto"
  assumes inv: "HyperLogLogPresto_inv t"
  shows "\<exists>r. CalBucketSum t = Inr r \<and> 0 < r \<and>
    (2 :: real) ^ n_leading_bits t / 2 ^ (64 - n_leading_bits t) \<le> r"
proof -
  from inv have len: "length (dense_bucket t) = 2 ^ n_leading_bits t"
    by (simp add: HyperLogLogPresto_inv_def)
  from CalBucketSum_loop_lower [OF inv, of 0 0] obtain r where
    r: "CalBucketSum_loop t 0 0 = Inr r"
    and rb: "(2 :: real) ^ n_leading_bits t / 2 ^ (64 - n_leading_bits t) \<le> r"
    by (auto simp add: len)
  have "(0 :: real) < 2 ^ n_leading_bits t / 2 ^ (64 - n_leading_bits t)" by simp
  from this rb have "0 < r" by (rule less_le_trans)
  with r rb show ?thesis by (simp add: CalBucketSum_def)
qed

lemma HyperLogLogPresto_inv_cardinality:
  "HyperLogLogPresto_inv (t\<lparr>presto_cardinality := c\<rparr>) = HyperLogLogPresto_inv t"
  by (simp add: HyperLogLogPresto_inv_def GetBucketValue_def)

lemma CalCardinality_total:
  fixes t :: "'w::len HyperLogLogPresto"
  assumes inv: "HyperLogLogPresto_inv t" and C: "0 \<le> C" "C < 1"
    and s: "(2 :: real) ^ n_leading_bits t / 2 ^ (64 - n_leading_bits t) \<le> r"
  shows "\<exists>c. CalCardinality C t r = Inr c"
proof -
  from inv have p: "n_leading_bits t \<le> 30" and len: "length (dense_bucket t) = 2 ^ n_leading_bits t"
    by (simp_all add: HyperLogLogPresto_inv_def)
  from p have p64: "n_leading_bits t \<le> 64" by simp
  have "(0 :: real) < 2 ^ n_leading_bits t / 2 ^ (64 - n_leading_bits t)" by simp
  from this s have "0 < r" by (rule less_le_trans)
  with estimate_fits [OF C p64 s] show ?thesis
    by (simp add: CalCardinality_def len)
qed

lemma HyperLogLogPresto_ComputeCardinality_total:
  fixes t :: "'w::len HyperLogLogPresto"
  assumes inv: "HyperLogLogPresto_inv t" and C: "0 \<le> C" "C < 1"
  shows "\<exists>t'. HyperLogLogPresto_ComputeCardinality C t = Inr t' \<and> HyperLogLogPresto_inv t'"
proof -
  from CalBucketSum_lower [OF inv] obtain r where r: "CalBucketSum t = Inr r"
    and rb: "(2 :: real) ^ n_leading_bits t / 2 ^ (64 - n_leading_bits t) \<le> r"
    by blast
  from CalCardinality_total [OF inv C rb] obtain c where c: "CalCardinality C t r = Inr c"
    by blast
  from r c inv show ?thesis
    by (simp add: HyperLogLogPresto_ComputeCardinality_def HyperLogLogPresto_inv_cardinality)
qed

lemma HyperLogLogPresto_calls_total:
  fixes t0 :: "'w::len HyperLogLogPresto"
  assumes C: "0 \<le> C" "C < 1"
  shows "HyperLogLogPresto_inv t0 \<Longrightarrow>
    \<exists>t. HyperLogLogPresto_calls H C cs t0 = Inr t \<and> HyperLogLogPresto_inv t"
proof (induction cs arbitrary: t0)
  case Nil
  then show ?case by simp
next
  case (Cons c cs)
  have "\<exists>t1. HyperLogLogPresto_call H C c t0 = Inr t1 \<and> HyperLogLogPresto_inv t1"
  proof (cases c)
    case (AddElem k)
    with HyperLogLogPresto_AddElem_general [OF Cons.prems, of H k] show ?thesis
      by (auto simp add: HyperLogLogPresto_call_def)
  next
    case ComputeCardinality
    with HyperLogLogPresto_ComputeCardinality_total [OF Cons.prems C] show ?thesis
      by (auto simp add: HyperLogLogPresto_call_def)
  qed
  then obtain t1 where 1: "HyperLogLogPresto_call H C c t0 = Inr t1"
    and i1: "HyperLogLogPresto_inv t1"
    by blast
  from Cons.IH [OF i1] 1 show ?case by simp
qed

section \<open>Construction and precision 0\<close>

text \<open>
  Claim C9, as stated, at \<^verbatim>\<open>precisionBits\<close> 31 and 32: \<^verbatim>\<open>1 << 31\<close> is the negative
  \<^verbatim>\<open>int\<close> \<open>- 2 ^ 31\<close>, the vector is asked for more elements than it can hold and throws;
  \<^verbatim>\<open>1 << 32\<close> shifts an \<^verbatim>\<open>int\<close> by its width. Neither construction yields an estimator.
\<close>

theorem construction_large_precision_counterexample:
  "HyperLogLog_ctor 31 = Inl LengthError \<and> HyperLogLog_ctor 32 = Inl UndefinedShift \<and>
   (HyperLogLogPresto_ctor 31 :: error + 3 HyperLogLogPresto) = Inl LengthError \<and>
   (HyperLogLogPresto_ctor 32 :: error + 3 HyperLogLogPresto) = Inl UndefinedShift"
  by (simp add: HyperLogLog_ctor_def HyperLogLogPresto_ctor_def shl1_def vector_of_def word_sle_eq
      word_sless_alt)

text \<open>
  Claim C9, amended. For every \<^verbatim>\<open>int16_t\<close> argument of value at most 30, both constructors
  succeed; the precision \<open>p\<close> is the argument, or 0 for a negative argument; there are
  exactly \<open>2 ^ p\<close> registers, all zero (for the compact estimator: zero dense fields and no
  overflow entry), and the stored cardinality is 0. With an argument \<open>\<le> 0\<close> there is
  exactly one register, and in every state that any sequence of calls reaches, the index
  computed for any key is 0.
\<close>

theorem construction_clamped:
  assumes "sint a \<le> 30"
  shows "\<exists>s0 t0. HyperLogLog_ctor a = Inr s0 \<and>
      (HyperLogLogPresto_ctor a :: error + 'w::len HyperLogLogPresto) = Inr t0 \<and>
      n_bits s0 = (if sint a < 0 then 0 else nat (sint a)) \<and>
      buckets s0 = replicate (2 ^ n_bits s0) 0 \<and> cardinality s0 = 0 \<and>
      n_leading_bits t0 = (if sint a < 0 then 0 else nat (sint a)) \<and>
      dense_bucket t0 = replicate (2 ^ n_leading_bits t0) 0 \<and>
      overflow_bucket t0 = Map.empty \<and> presto_cardinality t0 = 0 \<and>
      (sint a \<le> 0 \<longrightarrow>
         length (buckets s0) = 1 \<and> length (dense_bucket t0) = 1 \<and>
         (\<forall>s. HyperLogLog_calls H C cs s0 = Inr s \<longrightarrow>
            length (buckets s) = 1 \<and> ComputeBucket (n_bits s) (ComputeBinary (H k)) = Inr 0) \<and>
         (\<forall>t. HyperLogLogPresto_calls H C cs t0 = Inr t \<longrightarrow>
            length (dense_bucket t) = 1 \<and> ComputeBucketIndex (n_leading_bits t) (H k) = Inr 0))"
proof -
  define s0 where "s0 = \<lparr>n_bits = nat (sint a), buckets = replicate (2 ^ nat (sint a)) 0, cardinality = 0\<rparr>"
  define t0 :: "'w HyperLogLogPresto" where
    "t0 = \<lparr>n_leading_bits = nat (sint a), dense_bucket = replicate (2 ^ nat (sint a)) 0,
          overflow_bucket = Map.empty, presto_cardinality = 0\<rparr>"
  have 1: "HyperLogLog_ctor a = Inr s0"
    unfolding s0_def using assms by (rule HyperLogLog_ctor_closed)
  have 2: "HyperLogLogPresto_ctor a = Inr t0"
    unfolding t0_def using assms by (rule HyperLogLogPresto_ctor_closed)
  have 3: "n_bits s0 = (if sint a < 0 then 0 else nat (sint a))"
    "buckets s0 = replicate (2 ^ n_bits s0) 0" "cardinality s0 = 0"
    by (simp_all add: s0_def)
  have 4: "n_leading_bits t0 = (if sint a < 0 then 0 else nat (sint a))"
    "dense_bucket t0 = replicate (2 ^ n_leading_bits t0) 0"
    "overflow_bucket t0 = Map.empty" "presto_cardinality t0 = 0"
    by (simp_all add: t0_def)
  have 5: "length (buckets s0) = 1 \<and> length (dense_bucket t0) = 1 \<and>
         (\<forall>s. HyperLogLog_calls H C cs s0 = Inr s \<longrightarrow>
            length (buckets s) = 1 \<and> ComputeBucket (n_bits s) (ComputeBinary (H k)) = Inr 0) \<and>
         (\<forall>t. HyperLogLogPresto_calls H C cs t0 = Inr t \<longrightarrow>
            length (dense_bucket t) = 1 \<and> ComputeBucketIndex (n_leading_bits t) (H k) = Inr 0)"
    if "sint a \<le> 0"
  proof (intro conjI allI impI)
    from that show l1: "length (buckets s0) = 1" by (simp add: s0_def)
    from that show l2: "length (dense_bucket t0) = 1" by (simp add: t0_def)
    fix s assume "HyperLogLog_calls H C cs s0 = Inr s"
    from HyperLogLog_calls_cardinality [OF this] that l1
    show "length (buckets s) = 1" and "ComputeBucket (n_bits s) (ComputeBinary (H k)) = Inr 0"
      by (simp_all add: s0_def ComputeBucket_zero)
  next
    fix t assume "HyperLogLogPresto_calls H C cs t0 = Inr t"
    from HyperLogLogPresto_calls_cardinality [OF this] that
    show "length (dense_bucket t) = 1" and "ComputeBucketIndex (n_leading_bits t) (H k) = Inr 0"
      by (simp_all add: t0_def ComputeBucketIndex_zero)
  qed
  from 1 2 3 4 5 show ?thesis by blast
qed

theorem construction_clamped_witness:
  "\<exists>s0 t0. HyperLogLog_ctor (- 3) = Inr s0 \<and>
      (HyperLogLogPresto_ctor (- 3) :: error + 3 HyperLogLogPresto) = Inr t0 \<and>
      n_bits s0 = (if sint (- 3 :: 16 word) < 0 then 0 else nat (sint (- 3 :: 16 word))) \<and>
      buckets s0 = replicate (2 ^ n_bits s0) 0 \<and> cardinality s0 = 0 \<and>
      n_leading_bits t0 = (if sint (- 3 :: 16 word) < 0 then 0 else nat (sint (- 3 :: 16 word))) \<and>
      dense_bucket t0 = replicate (2 ^ n_leading_bits t0) 0 \<and>
      overflow_bucket t0 = Map.empty \<and> presto_cardinality t0 = 0 \<and>
      (sint (- 3 :: 16 word) \<le> 0 \<longrightarrow>
         length (buckets s0) = 1 \<and> length (dense_bucket t0) = 1 \<and>
         (\<forall>s. HyperLogLog_calls id 0 [AddElem 0x8000000000000000] s0 = Inr s \<longrightarrow>
            length (buckets s) = 1 \<and> ComputeBucket (n_bits s) (ComputeBinary (id 0xFFFFFFFFFFFFFFFF)) = Inr 0) \<and>
         (\<forall>t. HyperLogLogPresto_calls id 0 [AddElem 0x8000000000000000] t0 = Inr t \<longrightarrow>
            length (dense_bucket t) = 1 \<and> ComputeBucketIndex (n_leading_bits t) (id 0xFFFFFFFFFFFFFFFF) = Inr 0))"
proof -
  have h: "sint (- 3 :: 16 word) \<le> 30" by simp
  show ?thesis by (rule construction_clamped [OF h])
qed

section \<open>ComputeCardinality\<close>

text \<open>
  The dense estimator tests the sum before it divides: with a sum that is zero or negative,
  \<^verbatim>\<open>ComputeCardinality\<close> returns with the state as it was. The compact estimator has no
  such test; its sum is positive in every state that calls reach from construction, which is
  shown at the end of this section.
\<close>

lemma HyperLogLog_ComputeCardinality_guard:
  "HyperLogLog_sum (buckets s) \<le> 0 \<Longrightarrow> HyperLogLog_ComputeCardinality C s = Inr s"
  by (simp add: HyperLogLog_ComputeCardinality_def)

text \<open>
  Claim C5. Take either estimator as constructed, with a constant \<open>0 \<le> CONSTANT < 1\<close>, so
  that no estimate reaches \<open>2 ^ 64\<close>. Any sequence \<open>cs\<close> of \<^verbatim>\<open>AddElem\<close> and
  \<^verbatim>\<open>ComputeCardinality\<close> calls succeeds, then any call \<open>c\<close>, then any sequence \<open>cs'\<close>; the
  stored cardinality never decreases along the way; and the call \<open>c\<close> changes it only if it
  is \<^verbatim>\<open>ComputeCardinality\<close> and the freshly computed estimate is strictly greater than the
  stored value, which it replaces.
\<close>

theorem cardinality_never_decreases:
  fixes t0 :: "'w::len HyperLogLogPresto"
  assumes "HyperLogLog_ctor a = Inr s0" and "HyperLogLogPresto_ctor a' = Inr t0"
    and C: "0 \<le> C" "C < 1"
  shows
    "(\<exists>s1 s2 s3. HyperLogLog_calls H C cs s0 = Inr s1 \<and> HyperLogLog_call H C c s1 = Inr s2 \<and>
        HyperLogLog_calls H C cs' s2 = Inr s3 \<and>
        cardinality s0 \<le> cardinality s1 \<and> cardinality s1 \<le> cardinality s2 \<and>
        cardinality s2 \<le> cardinality s3 \<and>
        (cardinality s2 = cardinality s1 \<or>
         c = ComputeCardinality \<and> cardinality s1 < cardinality s2 \<and>
         size_t_of_double (of_int \<lfloor>C * real (length (buckets s1)) * real (length (buckets s1)) /
            HyperLogLog_sum (buckets s1)\<rfloor>) = Inr (cardinality s2))) \<and>
     (\<exists>t1 t2 t3. HyperLogLogPresto_calls H C cs t0 = Inr t1 \<and>
        HyperLogLogPresto_call H C c t1 = Inr t2 \<and>
        HyperLogLogPresto_calls H C cs' t2 = Inr t3 \<and>
        presto_cardinality t0 \<le> presto_cardinality t1 \<and>
        presto_cardinality t1 \<le> presto_cardinality t2 \<and>
        presto_cardinality t2 \<le> presto_cardinality t3 \<and>
        (presto_cardinality t2 = presto_cardinality t1 \<or>
         c = ComputeCardinality \<and> presto_cardinality t1 < presto_cardinality t2 \<and>
         (\<exists>r. CalBucketSum t1 = Inr r \<and> CalCardinality C t1 r = Inr (presto_cardinality t2))))"
proof
  from assms(1) have "HyperLogLog_inv s0" by (rule HyperLogLog_ctor_inv)
  from HyperLogLog_calls_total [OF C this, of H cs] obtain s1 where
    1: "HyperLogLog_calls H C cs s0 = Inr s1" and i1: "HyperLogLog_inv s1" by blast
  from HyperLogLog_calls_total [OF C i1, of H "[c]"] obtain s2 where
    2: "HyperLogLog_call H C c s1 = Inr s2" and i2: "HyperLogLog_inv s2"
    by (auto split: sum.splits)
  from HyperLogLog_calls_total [OF C i2, of H cs'] obtain s3 where
    3: "HyperLogLog_calls H C cs' s2 = Inr s3" by blast
  from HyperLogLog_calls_cardinality [OF 1] have m1: "cardinality s0 \<le> cardinality s1" by simp
  from HyperLogLog_call_cardinality [OF 2] have m2: "cardinality s1 \<le> cardinality s2" .
  from HyperLogLog_calls_cardinality [OF 3] have m3: "cardinality s2 \<le> cardinality s3" by simp
  from 1 2 3 m1 m2 m3 HyperLogLog_call_change [OF 2]
  show "\<exists>s1 s2 s3. HyperLogLog_calls H C cs s0 = Inr s1 \<and> HyperLogLog_call H C c s1 = Inr s2 \<and>
        HyperLogLog_calls H C cs' s2 = Inr s3 \<and>
        cardinality s0 \<le> cardinality s1 \<and> cardinality s1 \<le> cardinality s2 \<and>
        cardinality s2 \<le> cardinality s3 \<and>
        (cardinality s2 = cardinality s1 \<or>
         c = ComputeCardinality \<and> cardinality s1 < cardinality s2 \<and>
         size_t_of_double (of_int \<lfloor>C * real (length (buckets s1)) * real (length (buckets s1)) /
            HyperLogLog_sum (buckets s1)\<rfloor>) = Inr (cardinality s2))"
    by blast
next
  from assms(2) have "HyperLogLogPresto_inv t0" by (rule HyperLogLogPresto_ctor_inv)
  from HyperLogLogPresto_calls_total [OF C this, of H cs] obtain t1 where
    1: "HyperLogLogPresto_calls H C cs t0 = Inr t1" and i1: "HyperLogLogPresto_inv t1" by blast
  from HyperLogLogPresto_calls_total [OF C i1, of H "[c]"] obtain t2 where
    2: "HyperLogLogPresto_call H C c t1 = Inr t2" and i2: "HyperLogLogPresto_inv t2"
    by (auto split: sum.splits)
  from HyperLogLogPresto_calls_total [OF C i2, of H cs'] obtain t3 where
    3: "HyperLogLogPresto_calls H C cs' t2 = Inr t3" by blast
  from HyperLogLogPresto_calls_cardinality [OF 1]
  have m1: "presto_cardinality t0 \<le> presto_cardinality t1" by simp
  from HyperLogLogPresto_call_fields [OF 2]
  have m2: "presto_cardinality t1 \<le> presto_cardinality t2" by simp
  from HyperLogLogPresto_calls_cardinality [OF 3]
  have m3: "presto_cardinality t2 \<le> presto_cardinality t3" by simp
  from 1 2 3 m1 m2 m3 HyperLogLogPresto_call_change [OF 2]
  show "\<exists>t1 t2 t3. HyperLogLogPresto_calls H C cs t0 = Inr t1 \<and>
        HyperLogLogPresto_call H C c t1 = Inr t2 \<and>
        HyperLogLogPresto_calls H C cs' t2 = Inr t3 \<and>
        presto_cardinality t0 \<le> presto_cardinality t1 \<and>
        presto_cardinality t1 \<le> presto_cardinality t2 \<and>
        presto_cardinality t2 \<le> presto_cardinality t3 \<and>
        (presto_cardinality t2 = presto_cardinality t1 \<or>
         c = ComputeCardinality \<and> presto_cardinality t1 < presto_cardinality t2 \<and>
         (\<exists>r. CalBucketSum t1 = Inr r \<and> CalCardinality C t1 r = Inr (presto_cardinality t2)))"
    by blast
qed

theorem cardinality_never_decreases_witness:
  "(\<exists>s1 s2 s3. HyperLogLog_calls id (79402 / 100000) [AddElem 0x8000000000000004, ComputeCardinality]
          \<lparr>n_bits = 1, buckets = [0, 0], cardinality = 0\<rparr> = Inr s1 \<and>
        HyperLogLog_call id (79402 / 100000) ComputeCardinality s1 = Inr s2 \<and>
        HyperLogLog_calls id (79402 / 100000) [AddElem 0x0000000000000001, ComputeCardinality] s2 = Inr s3 \<and>
        cardinality \<lparr>n_bits = 1, buckets = [0, 0], cardinality = 0\<rparr> \<le> cardinality s1 \<and>
        cardinality s1 \<le> cardinality s2 \<and>
        cardinality s2 \<le> cardinality s3 \<and>
        (cardinality s2 = cardinality s1 \<or>
         (ComputeCardinality :: 64 word call) = ComputeCardinality \<and> cardinality s1 < cardinality s2 \<and>
         size_t_of_double (of_int \<lfloor>(79402 / 100000) * real (length (buckets s1)) * real (length (buckets s1)) /
            HyperLogLog_sum (buckets s1)\<rfloor>) = Inr (cardinality s2))) \<and>
     (\<exists>t1 t2 t3. HyperLogLogPresto_calls id (79402 / 100000) [AddElem 0x8000000000000004, ComputeCardinality]
          \<lparr>n_leading_bits = 1, dense_bucket = [0, 0], overflow_bucket = Map.empty,
           presto_cardinality = 0\<rparr> = Inr (t1 :: 3 HyperLogLogPresto) \<and>
        HyperLogLogPresto_call id (79402 / 100000) ComputeCardinality t1 = Inr t2 \<and>
        HyperLogLogPresto_calls id (79402 / 100000) [AddElem 0x0000000000000001, ComputeCardinality] t2 = Inr t3 \<and>
        presto_cardinality (\<lparr>n_leading_bits = 1, dense_bucket = [0, 0], overflow_bucket = Map.empty,
           presto_cardinality = 0\<rparr> :: 3 HyperLogLogPresto) \<le> presto_cardinality t1 \<and>
        presto_cardinality t1 \<le> presto_cardinality t2 \<and>
        presto_cardinality t2 \<le> presto_cardinality t3 \<and>
        (presto_cardinality t2 = presto_cardinality t1 \<or>
         (ComputeCardinality :: 64 word call) = ComputeCardinality \<and> presto_cardinality t1 < presto_cardinality t2 \<and>
         (\<exists>r. CalBucketSum t1 = Inr r \<and> CalCardinality (79402 / 100000) t1 r = Inr (presto_cardinality t2))))"
proof -
  have le: "sint (1 :: 16 word) \<le> 30" by simp
  have h1: "HyperLogLog_ctor 1 = Inr \<lparr>n_bits = 1, buckets = [0, 0], cardinality = 0\<rparr>"
    using HyperLogLog_ctor_closed [OF le] by (simp add: numeral_2_eq_2)
  have h2: "HyperLogLogPresto_ctor 1 =
      Inr (\<lparr>n_leading_bits = 1, dense_bucket = [0, 0], overflow_bucket = Map.empty,
           presto_cardinality = 0\<rparr> :: 3 HyperLogLogPresto)"
    using HyperLogLogPresto_ctor_closed [OF le, where 'a = 3] by (simp add: numeral_2_eq_2)
  have h4: "(0 :: real) \<le> 79402 / 100000" by simp
  have h5: "(79402 / 100000 :: real) < 1" by simp
  show ?thesis
    by (rule cardinality_never_decreases [OF h1 h2 h4 h5])
qed

text \<open>
  Claim C10. In every state of the compact estimator that a sequence of \<^verbatim>\<open>AddElem\<close> calls
  reaches from construction, whatever the width of the overflow field, \<^verbatim>\<open>CalBucketSum\<close>
  returns a strictly positive sum: every register value is at most 64, so every summand is
  the positive power of two \<open>1 / 2 ^ v\<close>; and \<^verbatim>\<open>CalCardinality\<close> called with that sum
  takes the quotient by a non-zero divisor.
\<close>

theorem CalBucketSum_positive:
  fixes t0 :: "'w::len HyperLogLogPresto"
  assumes "HyperLogLogPresto_ctor a = Inr t0"
  shows "\<exists>t r. HyperLogLogPresto_calls H C (map AddElem ks) t0 = Inr t \<and>
      CalBucketSum t = Inr r \<and> 0 < r \<and>
      (\<forall>index. unat index < length (dense_bucket t) \<longrightarrow>
         (\<exists>v. GetBucketValue t index = Inr v \<and> unat v \<le> 64 \<and> 0 < inv_pow2 v \<and>
              inv_pow2 v = 1 / 2 ^ unat v)) \<and>
      CalCardinality C' t r =
        size_t_of_double (of_int \<lfloor>C' * real (length (dense_bucket t)) *
           real (length (dense_bucket t)) / r\<rfloor>)"
proof -
  from assms(1) have "HyperLogLogPresto_inv t0" by (rule HyperLogLogPresto_ctor_inv)
  from HyperLogLogPresto_AddElems_inv [OF this, of H C ks] obtain t where
    1: "HyperLogLogPresto_calls H C (map AddElem ks) t0 = Inr t" and inv: "HyperLogLogPresto_inv t"
    by blast
  from CalBucketSum_lower [OF inv] obtain r where 2: "CalBucketSum t = Inr r" and 3: "0 < r"
    by blast
  have 4: "\<forall>index. unat index < length (dense_bucket t) \<longrightarrow>
         (\<exists>v. GetBucketValue t index = Inr v \<and> unat v \<le> 64 \<and> 0 < inv_pow2 v \<and>
              inv_pow2 v = 1 / 2 ^ unat v)"
  proof (intro allI impI)
    fix index :: "64 word" assume "unat index < length (dense_bucket t)"
    with inv obtain v where v: "GetBucketValue t index = Inr v" "unat v \<le> 64 - n_leading_bits t"
      unfolding HyperLogLogPresto_inv_def by blast
    then have "unat v \<le> 64" by simp
    then have "0 < inv_pow2 v \<and> inv_pow2 v = 1 / 2 ^ unat v" by (simp add: inv_pow2_def)
    with v \<open>unat v \<le> 64\<close>
    show "\<exists>v. GetBucketValue t index = Inr v \<and> unat v \<le> 64 \<and> 0 < inv_pow2 v \<and>
              inv_pow2 v = 1 / 2 ^ unat v" by blast
  qed
  from 3 have 5: "CalCardinality C' t r =
        size_t_of_double (of_int \<lfloor>C' * real (length (dense_bucket t)) *
           real (length (dense_bucket t)) / r\<rfloor>)"
    by (simp add: CalCardinality_def Let_def)
  from 1 2 3 4 5 show ?thesis by blast
qed

theorem CalBucketSum_positive_witness:
  "\<exists>t r. HyperLogLogPresto_calls id 0 (map AddElem [0x8000000000000004, 0x0000000000100000])
        (\<lparr>n_leading_bits = 1, dense_bucket = [0, 0], overflow_bucket = Map.empty,
           presto_cardinality = 0\<rparr> :: 3 HyperLogLogPresto) = Inr t \<and>
      CalBucketSum t = Inr r \<and> 0 < r \<and>
      (\<forall>index. unat index < length (dense_bucket t) \<longrightarrow>
         (\<exists>v. GetBucketValue t index = Inr v \<and> unat v \<le> 64 \<and> 0 < inv_pow2 v \<and>
              inv_pow2 v = 1 / 2 ^ unat v)) \<and>
      CalCardinality (79402 / 100000) t r =
        size_t_of_double (of_int \<lfloor>(79402 / 100000) * real (length (dense_bucket t)) *
           real (length (dense_bucket t)) / r\<rfloor>)"
proof -
  have le: "sint (1 :: 16 word) \<le> 30" by simp
  have h2: "HyperLogLogPresto_ctor 1 =
      Inr (\<lparr>n_leading_bits = 1, dense_bucket = [0, 0], overflow_bucket = Map.empty,
           presto_cardinality = 0\<rparr> :: 3 HyperLogLogPresto)"
    using HyperLogLogPresto_ctor_closed [OF le, where 'a = 3] by (simp add: numeral_2_eq_2)
  show ?thesis
    by (rule CalBucketSum_positive [OF h2])
qed

end
